theory Spec2Isabelle
  imports Complex_Main "HOL-Library.List_Lexorder"
begin

section \<open>Python values and strings\<close>

text \<open>
  A Python \<^verbatim>\<open>str\<close> is a sequence of Unicode code points; \<^verbatim>\<open>len\<close>, indexing and
  slicing count code points.  The model writes a string as the list of its code points.
  ASCII literals are written through \<open>U\<close>, the Cyrillic markers of the source as
  explicit code points.
\<close>

type_synonym ustring = "nat list"

definition U :: "string \<Rightarrow> ustring" where
  "U s = map of_char s"

text \<open>
  The functions of the source test their argument with \<^verbatim>\<open>not text\<close> and
  \<^verbatim>\<open>isinstance(text, str)\<close>, so the argument is a Python value, not only a string.
\<close>

datatype pyval = PyNone | PyStr ustring | PyInt int | PyBool bool | PyList "pyval list"

fun truthy :: "pyval \<Rightarrow> bool" where
  "truthy PyNone = False"
| "truthy (PyStr s) = (s \<noteq> [])"
| "truthy (PyInt n) = (n \<noteq> 0)"
| "truthy (PyBool b) = b"
| "truthy (PyList vs) = (vs \<noteq> [])"

fun isinstance_str :: "pyval \<Rightarrow> bool" where
  "isinstance_str (PyStr s) = True"
| "isinstance_str v = False"

fun str_of :: "pyval \<Rightarrow> ustring" where
  "str_of (PyStr s) = s"
| "str_of v = []"

datatype py_error = AttributeError | TypeError | ValueError

subsection \<open>Character classes\<close>

text \<open>
  \<^verbatim>\<open>str.isspace\<close>, which is also the class \<^verbatim>\<open>\s\<close> of a \<^verbatim>\<open>str\<close> pattern and the set
  that \<^verbatim>\<open>strip()\<close> and \<^verbatim>\<open>split()\<close> use.
\<close>

definition is_space :: "nat \<Rightarrow> bool" where
  "is_space c \<longleftrightarrow>
     (0x09 \<le> c \<and> c \<le> 0x0D) \<or> (0x1C \<le> c \<and> c \<le> 0x20) \<or> c = 0x85 \<or> c = 0xA0 \<or>
     c = 0x1680 \<or> (0x2000 \<le> c \<and> c \<le> 0x200A) \<or> c = 0x2028 \<or> c = 0x2029 \<or>
     c = 0x202F \<or> c = 0x205F \<or> c = 0x3000"

text \<open>
  Lower-casing of one code point.  The table covers the alphabets of the markers: ASCII
  \<open>A-Z\<close>, the Cyrillic capitals \<open>U+0400..U+042F\<close> and \<open>U+0490\<close>; every other code point
  is its own lower case.
\<close>

definition lower_cp :: "nat \<Rightarrow> nat" where
  "lower_cp c =
     (if 0x41 \<le> c \<and> c \<le> 0x5A then c + 0x20
      else if 0x410 \<le> c \<and> c \<le> 0x42F then c + 0x20
      else if 0x400 \<le> c \<and> c \<le> 0x40F then c + 0x50
      else if c = 0x490 then 0x491
      else c)"

definition lower :: "ustring \<Rightarrow> ustring" where
  "lower s = map lower_cp s"

subsection \<open>String operations\<close>

text \<open>\<^verbatim>\<open>text.replace('\xa0', ' ')\<close>\<close>

definition replace_nbsp :: "ustring \<Rightarrow> ustring" where
  "replace_nbsp s = map (\<lambda>c. if c = 0xA0 then 0x20 else c) s"

text \<open>\<^verbatim>\<open>re.sub(r'\s+', ' ', t)\<close>: every maximal run of white space becomes one space.\<close>

function collapse_ws :: "ustring \<Rightarrow> ustring" where
  "collapse_ws [] = []"
| "collapse_ws (c # cs) =
     (if is_space c then 0x20 # collapse_ws (dropWhile is_space cs) else c # collapse_ws cs)"
  by pat_completeness auto
termination
  by (relation "measure length") (auto simp: le_imp_less_Suc length_dropWhile_le)

definition strip :: "ustring \<Rightarrow> ustring" where
  "strip s = rev (dropWhile is_space (rev (dropWhile is_space s)))"

text \<open>The slice \<^verbatim>\<open>t[a:b]\<close> for indices \<open>0 \<le> a\<close>, \<open>0 \<le> b\<close>.\<close>

definition slice :: "'a list \<Rightarrow> nat \<Rightarrow> nat \<Rightarrow> 'a list" where
  "slice t a b = take (b - a) (drop a t)"

text \<open>\<^verbatim>\<open>x in y\<close> for strings: \<open>x\<close> occurs in \<open>y\<close> as a contiguous run.\<close>

fun contains :: "'a list \<Rightarrow> 'a list \<Rightarrow> bool" where
  "contains x [] = (x = [])"
| "contains x (c # cs) = (take (length x) (c # cs) = x \<or> contains x cs)"

section \<open>Marker patterns\<close>

text \<open>
  Every pattern the extractors compile has the shape
  \<^verbatim>\<open>(A|B|...)\s*[:\-...]*\<close> with \<^verbatim>\<open>re.IGNORECASE\<close>: an alternation of literal markers,
  then white space, then separators (colon, hyphen, U+2013, U+2014), both greedy.  Nothing follows the two starred classes,
  so the first alternative that matches at a position decides the match there.
\<close>

definition ci_eq :: "nat \<Rightarrow> nat \<Rightarrow> bool" where
  "ci_eq p c \<longleftrightarrow> lower_cp c = lower_cp p"

fun lit_match :: "ustring \<Rightarrow> ustring \<Rightarrow> bool" where
  "lit_match [] t = True"
| "lit_match (p # ps) [] = False"
| "lit_match (p # ps) (c # cs) = (ci_eq p c \<and> lit_match ps cs)"

definition is_sep :: "nat \<Rightarrow> bool" where
  "is_sep c \<longleftrightarrow> c = 0x3A \<or> c = 0x2D \<or> c = 0x2013 \<or> c = 0x2014"

text \<open>The length of the match of the pattern at the head of \<open>t\<close>, if it matches there.\<close>

definition marker_match :: "ustring list \<Rightarrow> ustring \<Rightarrow> nat option" where
  "marker_match pats t =
     (case find (\<lambda>p. lit_match p t) pats of
        None \<Rightarrow> None
      | Some p \<Rightarrow>
          (let r1 = drop (length p) t;
               ws = takeWhile is_space r1;
               seps = takeWhile is_sep (drop (length ws) r1)
           in Some (length p + length ws + length seps)))"

text \<open>
  \<^verbatim>\<open>pattern.search(t, pos)\<close>: the leftmost match at or after \<open>pos\<close>, as (start, end).
  \<open>scan\<close> walks the rest of the text, \<open>i\<close> being the index of its head.
\<close>

fun scan :: "ustring list \<Rightarrow> ustring \<Rightarrow> nat \<Rightarrow> (nat \<times> nat) option" where
  "scan pats [] i = map_option (\<lambda>n. (i, i + n)) (marker_match pats [])"
| "scan pats (c # cs) i =
     (case marker_match pats (c # cs) of
        Some n \<Rightarrow> Some (i, i + n)
      | None \<Rightarrow> scan pats cs (Suc i))"

definition re_search :: "ustring list \<Rightarrow> ustring \<Rightarrow> nat \<Rightarrow> (nat \<times> nat) option" where
  "re_search pats t pos = scan pats (drop pos t) pos"

text \<open>
  \<^verbatim>\<open>list(pattern.finditer(t))\<close>: the matches from left to right, each search resuming at
  the end of the match before.  After an empty match the scan moves on by one character
  (no marker of the source is empty, so this branch is never taken there).
\<close>

function finditer :: "ustring list \<Rightarrow> ustring \<Rightarrow> nat \<Rightarrow> (nat \<times> nat) list" where
  "finditer pats [] i = (case marker_match pats [] of Some n \<Rightarrow> [(i, i + n)] | None \<Rightarrow> [])"
| "finditer pats (c # cs) i =
     (case marker_match pats (c # cs) of
        Some n \<Rightarrow> (i, i + n) # finditer pats (drop (n - 1) cs) (i + max 1 n)
      | None \<Rightarrow> finditer pats cs (Suc i))"
  by pat_completeness auto
termination
  by (relation "measure (\<lambda>(pats, t, i). length t)") auto

section \<open>Fragment extraction\<close>

definition start_patterns :: "ustring list" where
  "start_patterns =
     [[0x410, 0x43D, 0x43D, 0x43E, 0x442, 0x430, 0x446, 0x438, 0x44F],
      [0x410, 0x43D, 0x43D, 0x43E, 0x442, 0x430, 0x446, 0x456, 0x44F]]"

definition end_patterns_primary :: "ustring list" where
  "end_patterns_primary =
     [[0x410, 0x43D, 0x43A, 0x43E, 0x440],
      U ''Anchor'',
      [0x410, 0x43D, 0x43A, 0x6F, 0x440]]"

definition end_patterns_secondary :: "ustring list" where
  "end_patterns_secondary =
     [[0x41F, 0x435, 0x440, 0x435, 0x432, 0x43E, 0x434, 0x20,
         0x430, 0x43D, 0x43D, 0x43E, 0x442, 0x430, 0x446, 0x438, 0x438],
      [0x41F, 0x435, 0x440, 0x435, 0x43A, 0x43B, 0x430, 0x434, 0x20,
         0x430, 0x43D, 0x43D, 0x43E, 0x442, 0x430, 0x446, 0x456, 0x457],
      [0x41F, 0x435, 0x440, 0x435, 0x432, 0x43E, 0x434, 0x20,
         0x430, 0x43D, 0x43D, 0x43E, 0x442, 0x430, 0x446, 0x456, 0x457],
      [0x41F, 0x435, 0x440, 0x435, 0x43A, 0x43B, 0x430, 0x434, 0x20,
         0x430, 0x43D, 0x43D, 0x43E, 0x442, 0x430, 0x446, 0x438, 0x438]]"

text \<open>The two exclusion terms of the lookback test, as the source writes them (lower case).\<close>

definition perevod :: ustring where
  "perevod = [0x43F, 0x435, 0x440, 0x435, 0x432, 0x43E, 0x434]"

definition pereklad :: ustring where
  "pereklad = [0x43F, 0x435, 0x440, 0x435, 0x43A, 0x43B, 0x430, 0x434]"

text \<open>
  The test of the loop body: the at most 20 characters before the match,
  \<^verbatim>\<open>t[max(0, start_idx-20):start_idx].lower()\<close>, contain neither exclusion term.
\<close>

definition before_text :: "ustring \<Rightarrow> nat \<Rightarrow> ustring" where
  "before_text t start_idx = lower (slice t (nat (max 0 (int start_idx - 20))) start_idx)"

definition not_excluded :: "ustring \<Rightarrow> nat \<Rightarrow> bool" where
  "not_excluded t start_idx \<longleftrightarrow>
     \<not> contains perevod (before_text t start_idx) \<and>
     \<not> contains pereklad (before_text t start_idx)"

text \<open>The \<^verbatim>\<open>for match in all_matches\<close> loop with its \<^verbatim>\<open>break\<close>.\<close>

fun first_valid :: "ustring \<Rightarrow> (nat \<times> nat) list \<Rightarrow> (nat \<times> nat) option" where
  "first_valid t [] = None"
| "first_valid t (m # ms) = (if not_excluded t (fst m) then Some m else first_valid t ms)"

definition start_match :: "ustring \<Rightarrow> (nat \<times> nat) option" where
  "start_match t = first_valid t (finditer start_patterns t 0)"

definition extract_annotation_fragment :: "pyval \<Rightarrow> ustring" where
  "extract_annotation_fragment text =
     (if \<not> truthy text \<or> \<not> isinstance_str text then []
      else
        (let t = collapse_ws (replace_nbsp (str_of text)) in
         case start_match t of
           None \<Rightarrow> strip t
         | Some sm \<Rightarrow>
             (let start_pos = snd sm;
                  end_match =
                    (case re_search end_patterns_primary t start_pos of
                       Some em \<Rightarrow> Some em
                     | None \<Rightarrow> re_search end_patterns_secondary t start_pos);
                  fragment =
                    (case end_match of
                       Some em \<Rightarrow> slice t start_pos (fst em)
                     | None \<Rightarrow> drop start_pos t)
              in strip fragment)))"

text \<open>\<^verbatim>\<open>re.sub(r'[\*_#]{1,}', ' ', fragment)\<close>: a run of emphasis marks becomes one space.\<close>

definition is_mark :: "nat \<Rightarrow> bool" where
  "is_mark c \<longleftrightarrow> c = 0x2A \<or> c = 0x5F \<or> c = 0x23"

function collapse_marks :: "ustring \<Rightarrow> ustring" where
  "collapse_marks [] = []"
| "collapse_marks (c # cs) =
     (if is_mark c then 0x20 # collapse_marks (dropWhile is_mark cs) else c # collapse_marks cs)"
  by pat_completeness auto
termination
  by (relation "measure length") (auto simp: le_imp_less_Suc length_dropWhile_le)

text \<open>The marker lists of the secondary extractor (its local \<^verbatim>\<open>start_patterns\<close>, \<^verbatim>\<open>end_patterns\<close>).\<close>

definition uk_start_patterns :: "ustring list" where
  "uk_start_patterns =
     [[0x41F, 0x435, 0x440, 0x435, 0x432, 0x43E, 0x434, 0x20,
         0x430, 0x43D, 0x43D, 0x43E, 0x442, 0x430, 0x446, 0x438, 0x438],
      [0x41F, 0x435, 0x440, 0x435, 0x43A, 0x43B, 0x430, 0x434, 0x20,
         0x430, 0x43D, 0x43D, 0x43E, 0x442, 0x430, 0x446, 0x456, 0x457],
      [0x41F, 0x435, 0x440, 0x435, 0x432, 0x43E, 0x434, 0x20,
         0x430, 0x43D, 0x43D, 0x43E, 0x442, 0x430, 0x446, 0x456, 0x457],
      [0x41F, 0x435, 0x440, 0x435, 0x43A, 0x43B, 0x430, 0x434, 0x20,
         0x430, 0x43D, 0x43D, 0x43E, 0x442, 0x430, 0x446, 0x438, 0x438]]"

definition uk_end_patterns :: "ustring list" where
  "uk_end_patterns =
     [[0x410, 0x43D, 0x43A, 0x43E, 0x440],
      U ''Anchor'',
      [0x410, 0x43D, 0x43A, 0x6F, 0x440]]"

definition extract_ukrainian_annotation_fragment :: "pyval \<Rightarrow> ustring" where
  "extract_ukrainian_annotation_fragment text =
     (if \<not> truthy text \<or> \<not> isinstance_str text then []
      else
        (let t = collapse_ws (replace_nbsp (str_of text)) in
         case re_search uk_start_patterns t 0 of
           None \<Rightarrow> []
         | Some sm \<Rightarrow>
             (let start_pos = snd sm;
                  fragment =
                    (case re_search uk_end_patterns t start_pos of
                       Some em \<Rightarrow> slice t start_pos (fst em)
                     | None \<Rightarrow> drop start_pos t)
              in strip (collapse_ws (collapse_marks fragment)))))"

section \<open>The comparison cleaner\<close>

text \<open>\<^verbatim>\<open>t.replace('\r\n', '\n')\<close> and \<^verbatim>\<open>.replace('\r', '\n')\<close>\<close>

fun replace_crlf :: "ustring \<Rightarrow> ustring" where
  "replace_crlf (a # b # cs) =
     (if a = 0x0D \<and> b = 0x0A then 0x0A # replace_crlf cs else a # replace_crlf (b # cs))"
| "replace_crlf cs = cs"

definition replace_cr :: "ustring \<Rightarrow> ustring" where
  "replace_cr s = map (\<lambda>c. if c = 0x0D then 0x0A else c) s"

text \<open>
  \<^verbatim>\<open>re.sub(r'<[^>]+>', ' ', t)\<close>.  After a \<open><\<close> the class takes every character up to the
  next \<open>>\<close>; the match needs at least one such character and the \<open>>\<close> itself.
  \<open>tag_len cs\<close> is the length of that match without its first character.
\<close>

definition tag_len :: "ustring \<Rightarrow> nat option" where
  "tag_len cs =
     (let body = takeWhile (\<lambda>c. c \<noteq> 0x3E) cs
      in if body \<noteq> [] \<and> length body < length cs then Some (length body + 1) else None)"

function sub_tags :: "ustring \<Rightarrow> ustring" where
  "sub_tags [] = []"
| "sub_tags (c # cs) =
     (if c = 0x3C then
        (case tag_len cs of
           Some n \<Rightarrow> 0x20 # sub_tags (drop n cs)
         | None \<Rightarrow> c # sub_tags cs)
      else c # sub_tags cs)"
  by pat_completeness auto
termination
  by (relation "measure length") auto

text \<open>
  The lazy group \<^verbatim>\<open>(.*?)\<close> followed by a closing mark: the number of characters the
  group takes.  The dot does not match a line feed, so the search ends at one.
  \<open>find_close1\<close> looks for a one-character mark, \<open>find_close2\<close> for the doubled one.
\<close>

fun find_close1 :: "nat \<Rightarrow> ustring \<Rightarrow> nat option" where
  "find_close1 m [] = None"
| "find_close1 m (a # as) =
     (if a = m then Some 0
      else if a = 0x0A then None
      else map_option Suc (find_close1 m as))"

fun find_close2 :: "nat \<Rightarrow> ustring \<Rightarrow> nat option" where
  "find_close2 m [] = None"
| "find_close2 m (a # as) =
     (if a = m \<and> (case as of [] \<Rightarrow> False | b # bs \<Rightarrow> b = m) then Some 0
      else if a = 0x0A then None
      else map_option Suc (find_close2 m as))"

text \<open>\<^verbatim>\<open>re.sub(r'(\*\*|__)(.*?)\1', r'\2', t)\<close>\<close>

function sub_bold :: "ustring \<Rightarrow> ustring" where
  "sub_bold [] = []"
| "sub_bold [a] = [a]"
| "sub_bold (a # b # cs) =
     (if a = b \<and> (a = 0x2A \<or> a = 0x5F) then
        (case find_close2 a cs of
           Some k \<Rightarrow> take k cs @ sub_bold (drop (k + 2) cs)
         | None \<Rightarrow> a # sub_bold (b # cs))
      else a # sub_bold (b # cs))"
  by pat_completeness auto
termination
  by (relation "measure length") auto

text \<open>
  \<^verbatim>\<open>re.sub(r'(?<!\*)\*(?!\*)', ' ', t)\<close>: an asterisk with no asterisk beside it.
  \<open>prev\<close> tells whether the character before the head is an asterisk.
\<close>

fun sub_star :: "bool \<Rightarrow> ustring \<Rightarrow> ustring" where
  "sub_star prev [] = []"
| "sub_star prev (c # cs) =
     (if c = 0x2A \<and> \<not> prev \<and> (case cs of [] \<Rightarrow> True | d # ds \<Rightarrow> d \<noteq> 0x2A)
      then 0x20 # sub_star True cs
      else c # sub_star (c = 0x2A) cs)"

text \<open>\<^verbatim>\<open>re.sub(r'_(.*?)_', r'\1', t)\<close>\<close>

function sub_italic :: "ustring \<Rightarrow> ustring" where
  "sub_italic [] = []"
| "sub_italic (c # cs) =
     (if c = 0x5F then
        (case find_close1 0x5F cs of
           Some k \<Rightarrow> take k cs @ sub_italic (drop (k + 1) cs)
         | None \<Rightarrow> c # sub_italic cs)
      else c # sub_italic cs)"
  by pat_completeness auto
termination
  by (relation "measure length") auto

text \<open>
  \<^verbatim>\<open>re.sub(r'(?m)^\s{0,3}#+\s*', ' ', t)\<close>.  At the start of a line the match is at most
  three white-space characters, then every \<open>#\<close> that follows (at least one), then every
  white-space character that follows.  \<open>bol\<close> tells whether the head stands at the start
  of a line: the start of the text or just after a line feed.
\<close>

definition heading_len :: "ustring \<Rightarrow> nat option" where
  "heading_len t =
     (let ws = takeWhile is_space t;
          r = drop (length ws) t;
          hs = takeWhile (\<lambda>c. c = 0x23) r;
          tl = takeWhile is_space (drop (length hs) r)
      in if length ws \<le> 3 \<and> hs \<noteq> [] then Some (length ws + length hs + length tl) else None)"

function sub_heading :: "bool \<Rightarrow> ustring \<Rightarrow> ustring" where
  "sub_heading bol [] = []"
| "sub_heading bol (c # cs) =
     (case (if bol then heading_len (c # cs) else None) of
        Some n \<Rightarrow> 0x20 # sub_heading ((c # cs) ! (n - 1) = 0x0A) (drop (n - 1) cs)
      | None \<Rightarrow> c # sub_heading (c = 0x0A) cs)"
  by pat_completeness auto
termination
  by (relation "measure (\<lambda>(bol, t). length t)") auto

text \<open>\<^verbatim>\<open>re.sub(r'\[\^?.*?\]', ' ', t)\<close>\<close>

function sub_footnote :: "ustring \<Rightarrow> ustring" where
  "sub_footnote [] = []"
| "sub_footnote (c # cs) =
     (if c = 0x5B then
        (case find_close1 0x5D cs of
           Some k \<Rightarrow> 0x20 # sub_footnote (drop (k + 1) cs)
         | None \<Rightarrow> c # sub_footnote cs)
      else c # sub_footnote cs)"
  by pat_completeness auto
termination
  by (relation "measure length") auto

text \<open>\<^verbatim>\<open>re.sub(r'[\-\u2014]{2,}', ' ', t)\<close>: a run of two or more dashes.\<close>

definition is_dash :: "nat \<Rightarrow> bool" where
  "is_dash c \<longleftrightarrow> c = 0x2D \<or> c = 0x2014"

function sub_dashes :: "ustring \<Rightarrow> ustring" where
  "sub_dashes [] = []"
| "sub_dashes (c # cs) =
     (if is_dash c \<and> (case cs of [] \<Rightarrow> False | d # ds \<Rightarrow> is_dash d)
      then 0x20 # sub_dashes (dropWhile is_dash cs)
      else c # sub_dashes cs)"
  by pat_completeness auto
termination
  by (relation "measure length") (auto simp: le_imp_less_Suc length_dropWhile_le)

text \<open>\<^verbatim>\<open>re.sub(r'\.\.{2,}', ' ', t)\<close>: a run of three or more full stops.\<close>

function sub_dots :: "ustring \<Rightarrow> ustring" where
  "sub_dots [] = []"
| "sub_dots (c # cs) =
     (if c = 0x2E \<and> 2 \<le> length (takeWhile (\<lambda>d. d = 0x2E) cs)
      then 0x20 # sub_dots (dropWhile (\<lambda>d. d = 0x2E) cs)
      else c # sub_dots cs)"
  by pat_completeness auto
termination
  by (relation "measure length") (auto simp: le_imp_less_Suc length_dropWhile_le)

text \<open>\<^verbatim>\<open>t.replace('*', ' ').replace('_', ' ')\<close>\<close>

definition replace_marks :: "ustring \<Rightarrow> ustring" where
  "replace_marks s = map (\<lambda>c. if c = 0x2A \<or> c = 0x5F then 0x20 else c) s"

definition clean_text_for_comparison :: "pyval \<Rightarrow> ustring" where
  "clean_text_for_comparison text =
     (if \<not> truthy text \<or> \<not> isinstance_str text then []
      else
        (let t = replace_nbsp (str_of text);
             t = replace_cr (replace_crlf t);
             t = sub_tags t;
             t = sub_bold t;
             t = sub_star False t;
             t = sub_italic t;
             t = sub_heading True t;
             t = sub_footnote t;
             t = sub_dashes t;
             t = sub_dots t;
             t = replace_marks t
         in strip (collapse_ws t)))"

section \<open>Chunked comparison\<close>






text \<open>
  \<^verbatim>\<open>step = max(1, int(chunk_size * 0.8))\<close>, \<^verbatim>\<open>int\<close> rounding towards zero.  The product is
  taken in exact arithmetic.
\<close>

definition trunc :: "real \<Rightarrow> int" where
  "trunc r = (if 0 \<le> r then \<lfloor>r\<rfloor> else \<lceil>r\<rceil>)"

definition step_of :: "int \<Rightarrow> nat" where
  "step_of chunk_size = nat (max 1 (trunc (real_of_int chunk_size * 0.8)))"










section \<open>Editor check\<close>

definition editors :: "ustring list" where
  "editors =
     [[0x429, 0x435, 0x440, 0x431, 0x430, 0x447, 0x435, 0x43D, 0x43A, 0x43E, 0x20,
       0x42E, 0x43B, 0x456, 0x44F],
      [0x421, 0x435, 0x432, 0x440, 0x44E, 0x43A, 0x43E, 0x432, 0x20,
       0x41E, 0x43B, 0x435, 0x43A, 0x441, 0x430, 0x43D, 0x434, 0x440, 0x20,
       0x412, 0x456, 0x43A, 0x442, 0x43E, 0x440, 0x43E, 0x432, 0x438, 0x447]]"

text \<open>\<^verbatim>\<open>re.search(re.escape(p), t, re.IGNORECASE)\<close> finds a match.\<close>

fun ci_search :: "ustring \<Rightarrow> ustring \<Rightarrow> bool" where
  "ci_search p [] = lit_match p []"
| "ci_search p (c # cs) = (lit_match p (c # cs) \<or> ci_search p cs)"

text \<open>
  A value that is true but not a string has no \<^verbatim>\<open>replace\<close> method taking these
  arguments, so the call raises.
\<close>

definition check_editors_on_page :: "pyval \<Rightarrow> py_error + bool \<times> ustring list" where
  "check_editors_on_page page_text =
     (if \<not> truthy page_text then Inr (False, [])
      else if \<not> isinstance_str page_text then Inl AttributeError
      else
        (let normalized_text = replace_nbsp (str_of page_text);
             found_editors = filter (\<lambda>editor. ci_search editor normalized_text) editors
         in Inr (0 < length found_editors, found_editors)))"

section \<open>URLs\<close>

text \<open>
  \<^verbatim>\<open>urlparse\<close> and \<^verbatim>\<open>urlunparse\<close> belong to the standard library; they are modelled after
  \<^verbatim>\<open>urllib.parse\<close> of CPython 3.11.10.  Two checks of the library are not spelled out: the
  validation of a bracketed (IPv6) host and the NFKC check of a host that is not ASCII.
  The parameter \<open>host_ok\<close> stands for them; it is asked only about such hosts, and a host
  it rejects makes the parse raise \<^verbatim>\<open>ValueError\<close>.
\<close>

definition is_ascii_alpha :: "nat \<Rightarrow> bool" where
  "is_ascii_alpha c \<longleftrightarrow> (0x41 \<le> c \<and> c \<le> 0x5A) \<or> (0x61 \<le> c \<and> c \<le> 0x7A)"

definition is_scheme_char :: "nat \<Rightarrow> bool" where
  "is_scheme_char c \<longleftrightarrow>
     is_ascii_alpha c \<or> (0x30 \<le> c \<and> c \<le> 0x39) \<or> c = 0x2B \<or> c = 0x2D \<or> c = 0x2E"

definition netloc_valid :: "(ustring \<Rightarrow> bool) \<Rightarrow> ustring \<Rightarrow> bool" where
  "netloc_valid host_ok netloc =
     (if (0x5B \<in> set netloc) \<noteq> (0x5D \<in> set netloc) then False
      else if 0x5B \<in> set netloc \<or> \<not> list_all (\<lambda>c. c < 0x80) netloc then host_ok netloc
      else True)"

text \<open>
  \<^verbatim>\<open>urlsplit(url)\<close>, in the order of the library's code.  Leading control characters and
  spaces are stripped and tabs and line breaks removed (\<open>strip_url\<close>); a scheme is cut off
  when the text before the first colon starts with an ASCII letter and consists of scheme
  characters (\<open>split_scheme\<close>); after \<open>//\<close> the host part runs up to the first of
  \<open>/ ? #\<close> (\<open>splitnetloc\<close>); the fragment follows the first \<open>#\<close> and the query the
  first \<open>?\<close> (\<open>split_at\<close>).  The result is (scheme, netloc, path, query, fragment).
\<close>

definition strip_url :: "ustring \<Rightarrow> ustring" where
  "strip_url url =
     filter (\<lambda>c. c \<noteq> 0x09 \<and> c \<noteq> 0x0D \<and> c \<noteq> 0x0A) (dropWhile (\<lambda>c. c \<le> 0x20) url)"

definition split_scheme :: "ustring \<Rightarrow> ustring \<times> ustring" where
  "split_scheme url =
     (let i = length (takeWhile (\<lambda>c. c \<noteq> 0x3A) url)
      in if 0 < i \<and> i < length url \<and> is_ascii_alpha (hd url) \<and>
            list_all is_scheme_char (take i url)
         then (lower (take i url), drop (i + 1) url)
         else ([], url))"

definition splitnetloc :: "ustring \<Rightarrow> ustring \<times> ustring" where
  "splitnetloc url =
     (let loc = takeWhile (\<lambda>c. c \<noteq> 0x2F \<and> c \<noteq> 0x3F \<and> c \<noteq> 0x23) (drop 2 url)
      in (loc, drop (2 + length loc) url))"

definition split_at :: "nat \<Rightarrow> ustring \<Rightarrow> ustring \<times> ustring" where
  "split_at d url =
     (if d \<in> set url
      then (takeWhile (\<lambda>c. c \<noteq> d) url, drop 1 (dropWhile (\<lambda>c. c \<noteq> d) url))
      else (url, []))"

definition urlsplit ::
  "(ustring \<Rightarrow> bool) \<Rightarrow> ustring \<Rightarrow>
     py_error + (ustring \<times> ustring \<times> ustring \<times> ustring \<times> ustring)" where
  "urlsplit host_ok url0 =
     (case split_scheme (strip_url url0) of
        (sch, url1) \<Rightarrow>
          (case (if take 2 url1 = U ''//'' then splitnetloc url1 else ([], url1)) of
             (loc, url2) \<Rightarrow>
               if \<not> netloc_valid host_ok loc then Inl ValueError
               else
                 (case split_at 0x23 url2 of
                    (url3, frag) \<Rightarrow>
                      (case split_at 0x3F url3 of
                         (url4, qry) \<Rightarrow> Inr (sch, loc, url4, qry, frag)))))"

record parse_result =
  scheme :: ustring
  netloc :: ustring
  path :: ustring
  params :: ustring
  query :: ustring
  fragment :: ustring

definition uses_params :: "ustring list" where
  "uses_params =
     map U [[], ''ftp'', ''hdl'', ''prospero'', ''http'', ''imap'', ''https'', ''shttp'',
       ''rtsp'', ''rtsps'', ''rtspu'', ''sip'', ''sips'', ''mms'', ''sftp'', ''tel'']"

definition uses_netloc :: "ustring list" where
  "uses_netloc =
     map U [[], ''ftp'', ''http'', ''gopher'', ''nntp'', ''telnet'', ''imap'', ''wais'', ''file'',
       ''mms'', ''https'', ''shttp'', ''snews'', ''prospero'', ''rtsp'', ''rtsps'', ''rtspu'',
       ''rsync'',
       ''svn'', ''svn+ssh'', ''sftp'', ''nfs'', ''git'', ''git+ssh'', ''ws'', ''wss'']"

text \<open>
  \<^verbatim>\<open>_splitparams(url)\<close>, called when the path has a \<open>;\<close>: the parameters start at the
  first \<open>;\<close> of the last path segment.
\<close>

definition splitparams :: "ustring \<Rightarrow> ustring \<times> ustring" where
  "splitparams url =
     (let start = (if 0x2F \<in> set url
                   then length url - 1 - length (takeWhile (\<lambda>c. c \<noteq> 0x2F) (rev url)) else 0);
          i = start + length (takeWhile (\<lambda>c. c \<noteq> 0x3B) (drop start url))
      in if i < length url then (take i url, drop (i + 1) url) else (url, []))"

definition urlparse :: "(ustring \<Rightarrow> bool) \<Rightarrow> ustring \<Rightarrow> py_error + parse_result" where
  "urlparse host_ok url0 =
     (case urlsplit host_ok url0 of
        Inl e \<Rightarrow> Inl e
      | Inr (sch, loc, url, qry, frag) \<Rightarrow>
          (let sp = (if sch \<in> set uses_params \<and> 0x3B \<in> set url then splitparams url
                     else (url, []))
           in Inr \<lparr>scheme = sch, netloc = loc, path = fst sp, params = snd sp,
                     query = qry, fragment = frag\<rparr>))"

definition urlunsplit :: "ustring \<times> ustring \<times> ustring \<times> ustring \<times> ustring \<Rightarrow> ustring" where
  "urlunsplit c =
     (case c of (sch, loc, url, qry, frag) \<Rightarrow>
        (let url =
               (if loc \<noteq> [] \<or> (sch \<noteq> [] \<and> sch \<in> set uses_netloc) \<or>
                   take 2 url = U ''//''
                then U ''//'' @ loc @
                       (if url \<noteq> [] \<and> take 1 url \<noteq> U ''/'' then U ''/'' @ url else url)
                else url);
             url = (if sch \<noteq> [] then sch @ U '':'' @ url else url);
             url = (if qry \<noteq> [] then url @ U ''?'' @ qry else url);
             url = (if frag \<noteq> [] then url @ U ''#'' @ frag else url)
         in url))"

definition urlunparse :: "parse_result \<Rightarrow> ustring" where
  "urlunparse p =
     urlunsplit (scheme p, netloc p,
       (if params p \<noteq> [] then path p @ U '';'' @ params p else path p), query p, fragment p)"

text \<open>An exception inside the \<^verbatim>\<open>try\<close> block makes either function return the empty string.\<close>

definition generate_ukrainian_url :: "(ustring \<Rightarrow> bool) \<Rightarrow> pyval \<Rightarrow> ustring" where
  "generate_ukrainian_url host_ok ru_url =
     (if \<not> truthy ru_url \<or> \<not> isinstance_str ru_url then []
      else
        (case urlparse host_ok (str_of ru_url) of
           Inl e \<Rightarrow> []
         | Inr parsed \<Rightarrow>
             (if contains (U ''/ua/'') (path parsed) then str_of ru_url
              else
                (let new_path = (if take 1 (path parsed) = U ''/'' then U ''/ua'' @ path parsed
                                 else U ''/ua/'' @ path parsed);
                     new_url = scheme parsed @ U ''://'' @ netloc parsed @ new_path;
                     new_url = (if query parsed \<noteq> [] then new_url @ U ''?'' @ query parsed
                                else new_url);
                     new_url = (if fragment parsed \<noteq> [] then new_url @ U ''#'' @ fragment parsed
                                else new_url)
                 in new_url))))"

definition generate_russian_url :: "(ustring \<Rightarrow> bool) \<Rightarrow> pyval \<Rightarrow> ustring" where
  "generate_russian_url host_ok url =
     (if \<not> truthy url \<or> \<not> isinstance_str url then []
      else
        (case urlparse host_ok (str_of url) of
           Inl e \<Rightarrow> []
         | Inr parsed \<Rightarrow>
             (let new_path = (if take 4 (path parsed) = U ''/ua/'' then drop 3 (path parsed)
                              else if path parsed = U ''/ua'' then U ''/''
                              else path parsed)
              in urlunparse (parsed\<lparr>path := new_path\<rparr>))))"

section \<open>Reference links\<close>

text \<open>
  The last block of \<^verbatim>\<open>extract_references_section\<close>: the links collected from the page
  are reduced to their hosts, filtered and sorted.  \<open>page_domain_of\<close> is the host of the
  page, \<^verbatim>\<open>None\<close> when the page URL does not parse.
\<close>

definition page_domain_of :: "(ustring \<Rightarrow> bool) \<Rightarrow> ustring \<Rightarrow> ustring option" where
  "page_domain_of host_ok page_url =
     (case urlparse host_ok page_url of
        Inl e \<Rightarrow> None
      | Inr parsed \<Rightarrow> Some (lower (netloc parsed)))"

text \<open>\<^verbatim>\<open>s.endswith(x)\<close>\<close>

definition endswith :: "ustring \<Rightarrow> ustring \<Rightarrow> bool" where
  "endswith s x \<longleftrightarrow> length x \<le> length s \<and> drop (length s - length x) s = x"

text \<open>
  The test \<^verbatim>\<open>if page_domain: if link_domain == page_domain or
  link_domain.endswith('.' + page_domain)\<close>.
\<close>

definition is_internal :: "ustring option \<Rightarrow> ustring \<Rightarrow> bool" where
  "is_internal page_domain link_domain =
     (case page_domain of
        None \<Rightarrow> False
      | Some d \<Rightarrow> d \<noteq> [] \<and> (link_domain = d \<or> endswith link_domain (U ''.'' @ d)))"

text \<open>
  The body of the loop for one link: the normalised link that is added to the set, or
  \<^verbatim>\<open>None\<close> when the link is skipped (by a \<^verbatim>\<open>continue\<close> or by an exception).
\<close>

definition normalized_link ::
  "(ustring \<Rightarrow> bool) \<Rightarrow> ustring option \<Rightarrow> ustring \<Rightarrow> ustring option" where
  "normalized_link host_ok page_domain link =
     (case urlparse host_ok link of
        Inl e \<Rightarrow> None
      | Inr link_parsed \<Rightarrow>
          (let link_domain = lower (netloc link_parsed)
           in if link_domain = [] then None
              else if is_internal page_domain link_domain then None
              else
                (let link_domain = (if take 4 link_domain = U ''www.'' then drop 4 link_domain
                                    else link_domain)
                 in Some (U ''https://'' @ link_domain))))"

fun filter_loop ::
  "(ustring \<Rightarrow> bool) \<Rightarrow> ustring option \<Rightarrow> ustring list \<Rightarrow> ustring set \<Rightarrow> ustring set" where
  "filter_loop host_ok page_domain [] filtered_domains = filtered_domains"
| "filter_loop host_ok page_domain (link # links) filtered_domains =
     filter_loop host_ok page_domain links
       (case normalized_link host_ok page_domain link of
          None \<Rightarrow> filtered_domains
        | Some n \<Rightarrow> insert n filtered_domains)"

text \<open>\<^verbatim>\<open>sorted(list(filtered_domains))\<close>, the value the function returns.\<close>

definition unique_links :: "(ustring \<Rightarrow> bool) \<Rightarrow> ustring \<Rightarrow> ustring list \<Rightarrow> ustring list" where
  "unique_links host_ok page_url references_links =
     sorted_list_of_set (filter_loop host_ok (page_domain_of host_ok page_url) references_links {})"

section \<open>Page tree\<close>

text \<open>
  The parsed page: an element has a name, attributes and children; a text node is a string.
  Two elements are equal (\<^verbatim>\<open>==\<close>) when they have the same name, attributes and content,
  which is equality of the terms here.  A position in the tree is the list of child indices
  that leads to it from the root.
\<close>

datatype node = Tag string "(string \<times> ustring) list" "node list" | NavigableString ustring

fun node_name :: "node \<Rightarrow> string" where
  "node_name (Tag name attrs cs) = name"
| "node_name (NavigableString s) = []"

fun children :: "node \<Rightarrow> node list" where
  "children (Tag name attrs cs) = cs"
| "children (NavigableString s) = []"

text \<open>An element is true as a condition; a text node is true when it is not empty.\<close>

fun node_truthy :: "node \<Rightarrow> bool" where
  "node_truthy (Tag name attrs cs) = True"
| "node_truthy (NavigableString s) = (s \<noteq> [])"

fun node_at :: "node \<Rightarrow> nat list \<Rightarrow> node option" where
  "node_at n [] = Some n"
| "node_at n (i # is) = (if i < length (children n) then node_at (children n ! i) is else None)"

text \<open>The nodes below a node, in document order; \<^verbatim>\<open>find_all(names)\<close> keeps the elements named.\<close>

fun descendants :: "node \<Rightarrow> node list" where
  "descendants (Tag name attrs cs) = concat (map (\<lambda>c. c # descendants c) cs)"
| "descendants (NavigableString s) = []"

definition find_all :: "string list \<Rightarrow> node \<Rightarrow> node list" where
  "find_all names n = filter (\<lambda>e. node_name e \<in> set names) (descendants n)"

text \<open>\<^verbatim>\<open>find_parent(names)\<close>: the nearest ancestor of the node at \<open>p\<close> that has one of the names.\<close>

function find_parent :: "node \<Rightarrow> nat list \<Rightarrow> string list \<Rightarrow> node option" where
  "find_parent soup p names =
     (if p = [] then None
      else
        (case node_at soup (butlast p) of
           None \<Rightarrow> None
         | Some n \<Rightarrow>
             if node_name n \<in> set names then Some n else find_parent soup (butlast p) names))"
  by pat_completeness auto
termination
  by (relation "measure (\<lambda>(soup, p, names). length p)") auto

declare find_parent.simps [simp del]

definition heading_names :: "string list" where
  "heading_names = [''h1'', ''h2'', ''h3'', ''h4'', ''h5'', ''h6'']"

text \<open>
  The first walk of \<^verbatim>\<open>extract_references_section\<close>, over the siblings that follow the
  header: \<^verbatim>\<open>while current and count < max_elements\<close>.
\<close>

fun sibling_walk :: "node list \<Rightarrow> nat \<Rightarrow> node list \<Rightarrow> node list" where
  "sibling_walk [] count section_content = section_content"
| "sibling_walk (current # rest) count section_content =
     (if \<not> node_truthy current \<or> \<not> count < 20 then section_content
      else if node_name current \<noteq> [] then
        (if node_name current \<in> set heading_names then section_content
         else if node_name current \<in> set [''p'', ''div'', ''li'', ''ul'', ''ol'', ''span'', ''a'', ''section'']
         then sibling_walk rest (count + 1) (section_content @ [current])
         else sibling_walk rest count section_content)
      else sibling_walk rest count section_content)"

text \<open>
  The second walk, over the elements \<^verbatim>\<open>find_all\<close> returns for the container:
  \<^verbatim>\<open>for elem in parent_container.find_all([...])\<close>.
\<close>

fun container_walk :: "node \<Rightarrow> node list \<Rightarrow> bool \<Rightarrow> nat \<Rightarrow> node list \<Rightarrow> node list" where
  "container_walk section_header [] found_header count section_content = section_content"
| "container_walk section_header (elem # rest) found_header count section_content =
     (if elem = section_header then container_walk section_header rest True count section_content
      else if found_header \<and> count < 20 then
        (if node_name elem \<in> set heading_names then section_content
         else if elem \<notin> set section_content
         then container_walk section_header rest found_header (count + 1) (section_content @ [elem])
         else container_walk section_header rest found_header count section_content)
      else container_walk section_header rest found_header count section_content)"

text \<open>
  The block of \<^verbatim>\<open>extract_references_section\<close> that collects \<^verbatim>\<open>section_content\<close> for the
  header at position \<open>hpath\<close> of the page.
\<close>

definition collect_section_content :: "node \<Rightarrow> nat list \<Rightarrow> node list" where
  "collect_section_content soup hpath =
     (case node_at soup hpath of
        None \<Rightarrow> []
      | Some section_header \<Rightarrow>
          (let siblings =
                 (if hpath = [] then []
                  else
                    (case node_at soup (butlast hpath) of
                       None \<Rightarrow> []
                     | Some parent \<Rightarrow> drop (Suc (last hpath)) (children parent)));
               section_content = sibling_walk siblings 0 []
           in if length section_content < 3 then
                (case find_parent soup hpath [''div'', ''section'', ''article'', ''main''] of
                   None \<Rightarrow> section_content
                 | Some parent_container \<Rightarrow>
                     container_walk section_header
                       (find_all [''p'', ''div'', ''li'', ''span'', ''a'', ''ul'', ''ol''] parent_container)
                       False 0 section_content)
              else section_content))"

section \<open>Vocabulary of the properties\<close>













text \<open>
  The URL written from its parts, \<open>scheme://netloc/path?query#fragment\<close>, the query and the
  fragment with their marks only when they are not empty; and the parts of a URL in this
  plain form: a lower-case scheme, a host, a path that starts with a slash and has no
  parameters, and no tab or line break anywhere.
\<close>

definition url_of :: "ustring \<Rightarrow> ustring \<Rightarrow> ustring \<Rightarrow> ustring \<Rightarrow> ustring \<Rightarrow> ustring" where
  "url_of sch loc pth qry frag =
     sch @ U ''://'' @ loc @ pth @
       (if qry = [] then [] else U ''?'' @ qry) @ (if frag = [] then [] else U ''#'' @ frag)"

definition plain_url ::
  "(ustring \<Rightarrow> bool) \<Rightarrow> ustring \<Rightarrow> ustring \<Rightarrow> ustring \<Rightarrow> ustring \<Rightarrow> ustring \<Rightarrow> bool" where
  "plain_url host_ok sch loc pth qry frag \<longleftrightarrow>
     sch \<noteq> [] \<and> is_ascii_alpha (hd sch) \<and> list_all is_scheme_char sch \<and> lower sch = sch \<and>
     loc \<noteq> [] \<and> netloc_valid host_ok loc \<and>
     list_all (\<lambda>c. c \<noteq> 0x2F \<and> c \<noteq> 0x3F \<and> c \<noteq> 0x23) loc \<and>
     take 1 pth = U ''/'' \<and> list_all (\<lambda>c. c \<noteq> 0x3F \<and> c \<noteq> 0x23 \<and> c \<noteq> 0x3B) pth \<and>
     list_all (\<lambda>c. c \<noteq> 0x23) qry \<and>
     list_all (\<lambda>c. c \<noteq> 0x09 \<and> c \<noteq> 0x0D \<and> c \<noteq> 0x0A) (loc @ pth @ qry @ frag)"

text \<open>
  A page whose reference header is a paragraph inside a \<^verbatim>\<open>div\<close>: the header, one
  reference, a heading of level 2, and a paragraph with a link after that heading.
\<close>

definition ref_header :: node where
  "ref_header = Tag ''p'' []
     [NavigableString [0x41B, 0x438, 0x442, 0x435, 0x440, 0x430, 0x442, 0x443, 0x440, 0x430]]"

definition ref_item :: node where
  "ref_item = Tag ''p'' [] [NavigableString (U ''Source one'')]"

definition next_heading :: node where
  "next_heading = Tag ''h2'' [] [NavigableString (U ''Comments'')]"

definition later_link :: node where
  "later_link = Tag ''a'' [(''href'', U ''https://spam.example/'')] [NavigableString (U ''link'')]"

definition later_par :: node where
  "later_par = Tag ''p'' []
     [NavigableString (U ''Comments are welcome. Please be polite and stay on topic; advertising and unrelated links are removed. ''),
      later_link]"

definition example_page :: node where
  "example_page = Tag ''[document]'' []
     [Tag ''div'' [] [ref_header, ref_item, next_heading, later_par]]"

text \<open>
  Notions of the proof that cleaning twice is cleaning once.  \<open>no_tag\<close>, \<open>no_dash_run\<close>
  and \<open>no_dot_run\<close> say that the tag, dash and full-stop substitutions find nothing to
  replace.  \<open>edit del t t'\<close> says that \<open>t'\<close> comes from \<open>t\<close> by keeping characters and
  replacing blocks by one space each, and, when \<open>del\<close> holds, by deleting blocks; a block
  never starts with \<open>>\<close>.
\<close>

fun no_tag :: "ustring \<Rightarrow> bool" where
  "no_tag [] = True"
| "no_tag (c # cs) = ((c \<noteq> 0x3C \<or> tag_len cs = None) \<and> no_tag cs)"

fun no_dash_run :: "ustring \<Rightarrow> bool" where
  "no_dash_run [] = True"
| "no_dash_run (c # cs) =
     (\<not> (is_dash c \<and> (case cs of [] \<Rightarrow> False | d # ds \<Rightarrow> is_dash d)) \<and> no_dash_run cs)"

fun no_dot_run :: "ustring \<Rightarrow> bool" where
  "no_dot_run [] = True"
| "no_dot_run (c # cs) =
     (\<not> (c = 0x2E \<and> 2 \<le> length (takeWhile (\<lambda>d. d = 0x2E) cs)) \<and> no_dot_run cs)"

inductive edit :: "bool \<Rightarrow> ustring \<Rightarrow> ustring \<Rightarrow> bool" for del :: bool where
  edit_Nil: "edit del [] []"
| edit_keep: "edit del t t' \<Longrightarrow> edit del (c # t) (c # t')"
| edit_space: "edit del t t' \<Longrightarrow> d \<noteq> [] \<Longrightarrow> hd d \<noteq> 0x3E \<Longrightarrow> edit del (d @ t) (0x20 # t')"
| edit_drop: "del \<Longrightarrow> edit del t t' \<Longrightarrow> d \<noteq> [] \<Longrightarrow> hd d \<noteq> 0x3E \<Longrightarrow> edit del (d @ t) t'"

text \<open>
  The text has an opening square bracket with a closing one somewhere after it.
\<close>

fun has_bracket_pair :: "ustring \<Rightarrow> bool" where
  "has_bracket_pair [] = False"
| "has_bracket_pair (c # cs) = ((c = 0x5B \<and> 0x5D \<in> set cs) \<or> has_bracket_pair cs)"

text \<open>
  The form that \<^verbatim>\<open>re.sub(r'\s+', ' ', t)\<close> leaves: the only white-space character is the
  plain space, and no two of them are adjacent.
\<close>

fun collapsed :: "ustring \<Rightarrow> bool" where
  "collapsed [] = True"
| "collapsed (c # cs) =
     ((\<not> is_space c \<or> (c = 0x20 \<and> (case cs of [] \<Rightarrow> True | d # ds \<Rightarrow> \<not> is_space d))) \<and>
      collapsed cs)"

section \<open>Start markers\<close>








































text \<open>
  Claim C10.  On \<^verbatim>\<open>None\<close>, on the empty string and on a value that is not a string,
  \<^verbatim>\<open>extract_annotation_fragment\<close>, \<^verbatim>\<open>extract_ukrainian_annotation_fragment\<close> and
  \<^verbatim>\<open>clean_text_for_comparison\<close> return the empty string; on an input that is empty
  (false as a condition) \<^verbatim>\<open>check_editors_on_page\<close> returns \<^verbatim>\<open>(False, [])\<close> and does not
  raise.
\<close>

theorem guards_return_defaults:
  "(\<not> truthy v \<or> \<not> isinstance_str v \<longrightarrow>
      extract_annotation_fragment v = [] \<and>
      extract_ukrainian_annotation_fragment v = [] \<and>
      clean_text_for_comparison v = []) \<and>
   (\<not> truthy v \<longrightarrow> check_editors_on_page v = Inr (False, []))"
  by (simp add: extract_annotation_fragment_def extract_ukrainian_annotation_fragment_def
      clean_text_for_comparison_def check_editors_on_page_def)

theorem guards_return_defaults_witness:
  "extract_annotation_fragment PyNone = [] \<and>
   extract_ukrainian_annotation_fragment PyNone = [] \<and>
   clean_text_for_comparison PyNone = [] \<and>
   check_editors_on_page PyNone = Inr (False, []) \<and>
   extract_annotation_fragment (PyInt 5) = [] \<and>
   extract_ukrainian_annotation_fragment (PyInt 5) = [] \<and>
   clean_text_for_comparison (PyInt 5) = [] \<and>
   check_editors_on_page (PyStr []) = Inr (False, [])"
  using guards_return_defaults [of PyNone] guards_return_defaults [of "PyInt 5"]
    guards_return_defaults [of "PyStr []"]
  by simp

section \<open>Chunking\<close>












lemma step_of_nonneg: "0 \<le> c \<Longrightarrow> step_of c = max 1 (nat \<lfloor>real_of_int c * 0.8\<rfloor>)"
  by (simp add: step_of_def trunc_def max_def) linarith

lemma step_of_div: "0 \<le> c \<Longrightarrow> step_of c = max 1 (nat c * 4 div 5)"
proof -
  assume c: "0 \<le> c"
  have "real_of_int c * 0.8 = real_of_int (c * 4) / real_of_int 5" by simp
  then have "\<lfloor>real_of_int c * 0.8\<rfloor> = c * 4 div 5"
    by (simp only: floor_divide_of_int_eq)
  moreover have "nat (c * 4 div 5) = nat c * 4 div 5"
    using c by (simp add: nat_div_distrib nat_mult_distrib)
  ultimately show ?thesis using c by (simp add: step_of_nonneg)
qed


lemmas clean_eval = clean_text_for_comparison_def U_def Let_def is_space_def heading_len_def
  tag_len_def strip_def replace_nbsp_def replace_cr_def replace_marks_def is_dash_def







section \<open>Scores\<close>















section \<open>Locale URLs\<close>

lemmas url_eval = urlparse_def urlsplit_def urlunparse_def urlunsplit_def splitparams_def
  strip_url_def split_scheme_def splitnetloc_def split_at_def
  generate_ukrainian_url_def generate_russian_url_def netloc_valid_def is_ascii_alpha_def
  is_scheme_char_def uses_params_def uses_netloc_def U_def Let_def lower_def lower_cp_def
  normalized_link_def page_domain_of_def is_internal_def endswith_def unique_links_def


lemma takeWhile_stop:
  assumes "\<forall>x \<in> set xs. P x" "ys = [] \<or> \<not> P (hd ys)"
  shows "takeWhile P (xs @ ys) = xs"
proof -
  have "takeWhile P (xs @ ys) = xs @ takeWhile P ys" using assms(1) by (simp add: takeWhile_append2)
  moreover have "takeWhile P ys = []" using assms(2) by (cases ys) auto
  ultimately show ?thesis by simp
qed

lemma dropWhile_stop:
  assumes "\<forall>x \<in> set xs. P x" "ys = [] \<or> \<not> P (hd ys)"
  shows "dropWhile P (xs @ ys) = ys"
proof -
  have "dropWhile P (xs @ ys) = dropWhile P ys" using assms(1) by (simp add: dropWhile_append2)
  moreover have "dropWhile P ys = ys" using assms(2) by (cases ys) auto
  ultimately show ?thesis by simp
qed

lemma scheme_char_not_special:
  "is_scheme_char c \<Longrightarrow> c \<noteq> 0x3A \<and> 0x20 < c \<and> c \<noteq> 0x09 \<and> c \<noteq> 0x0D \<and> c \<noteq> 0x0A"
  by (auto simp: is_scheme_char_def is_ascii_alpha_def)

lemma strip_url_id:
  assumes "url \<noteq> []" "0x20 < hd url" "list_all (\<lambda>c. c \<noteq> 0x09 \<and> c \<noteq> 0x0D \<and> c \<noteq> 0x0A) url"
  shows "strip_url url = url"
proof -
  from assms(1,2) have "dropWhile (\<lambda>c. c \<le> 0x20) url = url" by (cases url) auto
  moreover have "filter (\<lambda>c. c \<noteq> 0x09 \<and> c \<noteq> 0x0D \<and> c \<noteq> 0x0A) url = url"
    using assms(3) by (simp add: list_all_iff)
  ultimately show ?thesis by (simp add: strip_url_def)
qed

lemma split_scheme_eq:
  assumes "sch \<noteq> []" "is_ascii_alpha (hd sch)" "list_all is_scheme_char sch" "lower sch = sch"
  shows "split_scheme (sch @ 0x3A # rest) = (sch, rest)"
proof -
  have nc: "\<forall>x \<in> set sch. x \<noteq> 0x3A"
    using assms(3) scheme_char_not_special by (auto simp: list_all_iff)
  have tw: "takeWhile (\<lambda>c. c \<noteq> 0x3A) (sch @ 0x3A # rest) = sch"
    using nc by (intro takeWhile_stop) auto
  have hd: "hd (sch @ 0x3A # rest) = hd sch" using assms(1) by simp
  show ?thesis
    using assms by (simp add: split_scheme_def tw hd Let_def)
qed

lemma splitnetloc_eq:
  assumes "list_all (\<lambda>c. c \<noteq> 0x2F \<and> c \<noteq> 0x3F \<and> c \<noteq> 0x23) loc"
    "rest = [] \<or> hd rest = 0x2F \<or> hd rest = 0x3F \<or> hd rest = 0x23"
  shows "splitnetloc (U ''//'' @ loc @ rest) = (loc, rest)"
proof -
  have e: "U ''//'' @ loc @ rest = 0x2F # 0x2F # (loc @ rest)" by (simp add: U_def)
  have tw: "takeWhile (\<lambda>c. c \<noteq> 0x2F \<and> c \<noteq> 0x3F \<and> c \<noteq> 0x23) (loc @ rest) = loc"
    using assms by (intro takeWhile_stop) (auto simp: list_all_iff)
  show ?thesis unfolding e by (simp add: splitnetloc_def tw Let_def)
qed

lemma split_at_eq:
  assumes "d \<notin> set a"
  shows "split_at d (a @ (if b = [] then [] else d # b)) = (a, b)"
proof (cases "b = []")
  case True
  then show ?thesis using assms by (simp add: split_at_def)
next
  case False
  have "takeWhile (\<lambda>c. c \<noteq> d) (a @ d # b) = a"
    using assms by (intro takeWhile_stop) auto
  moreover have "dropWhile (\<lambda>c. c \<noteq> d) (a @ d # b) = d # b"
    using assms by (intro dropWhile_stop) auto
  ultimately show ?thesis using False by (simp add: split_at_def)
qed

lemma urlsplit_url_of:
  assumes "plain_url host_ok sch loc pth qry frag"
  shows "urlsplit host_ok (url_of sch loc pth qry frag) = Inr (sch, loc, pth, qry, frag)"
proof -
  let ?F = "if frag = [] then [] else 0x23 # frag"
  let ?Q = "if qry = [] then [] else 0x3F # qry"
  let ?rest = "pth @ ?Q @ ?F"
  from assms have sch: "sch \<noteq> []" "is_ascii_alpha (hd sch)" "list_all is_scheme_char sch"
      "lower sch = sch"
    and loc: "netloc_valid host_ok loc" "list_all (\<lambda>c. c \<noteq> 0x2F \<and> c \<noteq> 0x3F \<and> c \<noteq> 0x23) loc"
    and pth: "take 1 pth = U ''/''" "list_all (\<lambda>c. c \<noteq> 0x3F \<and> c \<noteq> 0x23 \<and> c \<noteq> 0x3B) pth"
    and qry: "list_all (\<lambda>c. c \<noteq> 0x23) qry"
    and ws: "list_all (\<lambda>c. c \<noteq> 0x09 \<and> c \<noteq> 0x0D \<and> c \<noteq> 0x0A) (loc @ pth @ qry @ frag)"
    by (simp_all add: plain_url_def)
  have u: "url_of sch loc pth qry frag = sch @ 0x3A # (U ''//'' @ loc @ ?rest)"
    by (simp add: url_of_def U_def)
  have "list_all (\<lambda>c. c \<noteq> 0x09 \<and> c \<noteq> 0x0D \<and> c \<noteq> 0x0A) (url_of sch loc pth qry frag)"
    using ws sch(3) scheme_char_not_special by (auto simp: url_of_def U_def list_all_iff)
  moreover have "0x20 < hd (url_of sch loc pth qry frag)"
    using sch(1,3) scheme_char_not_special [of "hd sch"]
    by (cases sch) (auto simp: url_of_def)
  moreover have "url_of sch loc pth qry frag \<noteq> []" using sch(1) by (simp add: url_of_def)
  ultimately have s1: "strip_url (url_of sch loc pth qry frag) = url_of sch loc pth qry frag"
    by (intro strip_url_id) auto
  have s2: "split_scheme (url_of sch loc pth qry frag) = (sch, U ''//'' @ loc @ ?rest)"
    unfolding u using sch by (rule split_scheme_eq)
  have t2: "take 2 (U ''//'' @ loc @ ?rest) = U ''//''" by (simp add: U_def)
  obtain p ps where p: "pth = 0x2F # ps" using pth(1) by (cases pth) (auto simp: U_def)
  have s3: "splitnetloc (U ''//'' @ loc @ ?rest) = (loc, ?rest)"
    using loc(2) by (intro splitnetloc_eq) (auto simp: p)
  have "0x23 \<notin> set (pth @ ?Q)" using pth(2) qry by (auto simp: list_all_iff)
  then have "split_at 0x23 ((pth @ ?Q) @ ?F) = (pth @ ?Q, frag)" by (rule split_at_eq)
  then have s4: "split_at 0x23 ?rest = (pth @ ?Q, frag)" by simp
  have "0x3F \<notin> set pth" using pth(2) by (auto simp: list_all_iff)
  then have s5: "split_at 0x3F (pth @ ?Q) = (pth, qry)" by (rule split_at_eq)
  show ?thesis
    using loc(1) by (simp only: urlsplit_def s1 s2 t2 s3 s4 s5 prod.case if_True not_True_eq_False if_False simp_thms)
qed

lemma urlparse_url_of:
  assumes "plain_url host_ok sch loc pth qry frag"
  shows "urlparse host_ok (url_of sch loc pth qry frag) =
     Inr \<lparr>scheme = sch, netloc = loc, path = pth, params = [], query = qry, fragment = frag\<rparr>"
proof -
  from assms have "0x3B \<notin> set pth" by (auto simp: plain_url_def list_all_iff)
  then show ?thesis
    by (simp add: urlparse_def urlsplit_url_of [OF assms] Let_def)
qed


lemma plain_url_ua:
  assumes "plain_url host_ok sch loc pth qry frag"
  shows "plain_url host_ok sch loc (U ''/ua'' @ pth) qry frag"
  using assms by (auto simp: plain_url_def U_def)

lemma url_of_nonempty: "plain_url host_ok sch loc pth qry frag \<Longrightarrow> url_of sch loc pth qry frag \<noteq> []"
  by (simp add: plain_url_def url_of_def)

lemma generate_ukrainian_url_plain:
  assumes p: "plain_url host_ok sch loc pth qry frag" and n: "\<not> contains (U ''/ua/'') pth"
  shows "generate_ukrainian_url host_ok (PyStr (url_of sch loc pth qry frag)) =
     url_of sch loc (U ''/ua'' @ pth) qry frag"
proof -
  have t: "take 1 pth = U ''/''" using p by (simp add: plain_url_def)
  have "generate_ukrainian_url host_ok (PyStr (url_of sch loc pth qry frag)) =
      (sch @ U ''://'' @ loc @ U ''/ua'' @ pth) @
        (if qry = [] then [] else U ''?'' @ qry) @ (if frag = [] then [] else U ''#'' @ frag)"
    using n t url_of_nonempty [OF p]
    by (simp add: generate_ukrainian_url_def urlparse_url_of [OF p] Let_def)
  then show ?thesis by (simp add: url_of_def)
qed

lemma generate_russian_url_plain:
  assumes p: "plain_url host_ok sch loc pth qry frag"
  shows "generate_russian_url host_ok (PyStr (url_of sch loc (U ''/ua'' @ pth) qry frag)) =
     url_of sch loc pth qry frag"
proof -
  define P where "P = U ''/ua'' @ pth"
  have p': "plain_url host_ok sch loc P qry frag" unfolding P_def using p by (rule plain_url_ua)
  obtain ps where ps: "pth = 0x2F # ps" using p by (cases pth) (auto simp: plain_url_def U_def)
  have t4: "take 4 P = U ''/ua/''" by (simp add: P_def ps U_def)
  have d3: "drop 3 P = pth" by (simp add: P_def U_def)
  have loc: "loc \<noteq> []" using p by (simp add: plain_url_def)
  have sch: "sch \<noteq> []" using p by (simp add: plain_url_def)
  have un: "urlunparse \<lparr>scheme = sch, netloc = loc, path = pth, params = [], query = qry,
      fragment = frag\<rparr> = url_of sch loc pth qry frag"
    using loc sch by (simp add: urlunparse_def urlunsplit_def Let_def url_of_def ps U_def)
  have "generate_russian_url host_ok (PyStr (url_of sch loc P qry frag)) =
     url_of sch loc pth qry frag"
    using url_of_nonempty [OF p']
    by (simp add: generate_russian_url_def urlparse_url_of [OF p'] Let_def t4 d3 un)
  then show ?thesis by (simp add: P_def)
qed

text \<open>
  Claim C4, as amended.  For every URL in the plain form \<open>scheme://netloc/path?query#fragment\<close>
  (a lower-case scheme, a host, a path that starts with a slash and has no parameters, the
  query and the fragment present only when they are not empty, no tab or line break) whose
  path does not contain \<^verbatim>\<open>/ua/\<close> at all, \<^verbatim>\<open>generate_russian_url\<close> applied to the result of
  \<^verbatim>\<open>generate_ukrainian_url\<close> gives the URL back.
\<close>

theorem locale_url_roundtrip:
  assumes "plain_url host_ok sch loc pth qry frag" "\<not> contains (U ''/ua/'') pth"
  shows "generate_russian_url host_ok
           (PyStr (generate_ukrainian_url host_ok (PyStr (url_of sch loc pth qry frag)))) =
         url_of sch loc pth qry frag"
  using assms by (simp add: generate_ukrainian_url_plain generate_russian_url_plain)

theorem locale_url_roundtrip_witness:
  "plain_url (\<lambda>h. True) (U ''https'') (U ''apteka911.ua'') (U ''/shop/x'') (U ''a=1'') (U ''f'') \<and>
   \<not> contains (U ''/ua/'') (U ''/shop/x'') \<and>
   generate_ukrainian_url (\<lambda>h. True) (PyStr (U ''https://apteka911.ua/shop/x?a=1#f'')) =
     U ''https://apteka911.ua/ua/shop/x?a=1#f'' \<and>
   generate_russian_url (\<lambda>h. True)
     (PyStr (generate_ukrainian_url (\<lambda>h. True) (PyStr (U ''https://apteka911.ua/shop/x?a=1#f'')))) =
     U ''https://apteka911.ua/shop/x?a=1#f''"
proof -
  have p: "plain_url (\<lambda>h. True) (U ''https'') (U ''apteka911.ua'') (U ''/shop/x'') (U ''a=1'') (U ''f'')"
    by (simp add: plain_url_def url_eval)
  have c: "\<not> contains (U ''/ua/'') (U ''/shop/x'')" by (simp add: U_def)
  have u: "url_of (U ''https'') (U ''apteka911.ua'') (U ''/shop/x'') (U ''a=1'') (U ''f'') =
      U ''https://apteka911.ua/shop/x?a=1#f''"
    by (simp add: url_of_def U_def)
  have g: "generate_ukrainian_url (\<lambda>h. True) (PyStr (U ''https://apteka911.ua/shop/x?a=1#f'')) =
     U ''https://apteka911.ua/ua/shop/x?a=1#f''"
    by (simp add: url_eval)
  from locale_url_roundtrip [OF p c] p c g show ?thesis by (simp only: u simp_thms)
qed

text \<open>
  The round trip changes a URL that is already in the secondary form, a URL with an empty
  path, one with path parameters, one with an upper-case scheme, and one without a scheme.
\<close>

theorem locale_url_roundtrip_fails:
  "generate_russian_url (\<lambda>h. True)
     (PyStr (generate_ukrainian_url (\<lambda>h. True) (PyStr (U ''https://apteka911.ua/ua/shop'')))) =
     U ''https://apteka911.ua/shop'' \<and>
   generate_russian_url (\<lambda>h. True)
     (PyStr (generate_ukrainian_url (\<lambda>h. True) (PyStr (U ''https://apteka911.ua'')))) =
     U ''https://apteka911.ua/'' \<and>
   generate_russian_url (\<lambda>h. True)
     (PyStr (generate_ukrainian_url (\<lambda>h. True) (PyStr (U ''https://a.ua/b;c'')))) =
     U ''https://a.ua/b'' \<and>
   generate_russian_url (\<lambda>h. True)
     (PyStr (generate_ukrainian_url (\<lambda>h. True) (PyStr (U ''HTTPS://a.ua/b'')))) =
     U ''https://a.ua/b'' \<and>
   generate_russian_url (\<lambda>h. True)
     (PyStr (generate_ukrainian_url (\<lambda>h. True) (PyStr (U ''a.ua/b'')))) =
     U '':///ua/a.ua/b''"
  by (simp add: url_eval)


section \<open>Reference links\<close>


















section \<open>Section content\<close>

lemmas dom_eval = collect_section_content_def find_all_def heading_names_def find_parent.simps
  example_page_def ref_header_def ref_item_def next_heading_def later_par_def later_link_def
  Let_def U_def

text \<open>
  Claim C6.  The claim says that the walk over the container's descendants stops at the next
  heading, as the walk over the siblings does.  On the example page the header is the first
  child of a \<^verbatim>\<open>div\<close>, followed by one reference, a heading of level 2 and a paragraph with
  a link.  The sibling walk collects the reference and stops at the heading; fewer than 3
  elements were collected, so the container is walked, and that walk collects the paragraph
  after the heading and its link: \<^verbatim>\<open>find_all\<close> is asked for the names
  \<^verbatim>\<open>p div li span a ul ol\<close> only, so no heading ever reaches the test that would stop it.
\<close>

theorem fallback_walk_passes_heading:
  "children (Tag ''div'' [] [ref_header, ref_item, next_heading, later_par]) =
     [ref_header, ref_item, next_heading, later_par] \<and>
   node_at example_page [0, 0] = Some ref_header \<and>
   node_name next_heading = ''h2'' \<and>
   sibling_walk [ref_item, next_heading, later_par] 0 [] = [ref_item] \<and>
   collect_section_content example_page [0, 0] = [ref_item, later_par, later_link]"
  by (simp add: dom_eval)



section \<open>Cleaning twice\<close>

text \<open>
  Every substitution of the cleaner is an \<open>edit\<close>: it keeps characters, replaces a block by
  one space, or deletes a block.  The properties that make a later substitution the
  identity survive the edits that follow it.
\<close>

lemma edit_refl: "edit del t t"
  by (induction t) (auto intro: edit.intros)

lemma edit_keep_list: "edit del t t' \<Longrightarrow> edit del (xs @ t) (xs @ t')"
  by (induction xs) (auto intro: edit.intros)

lemma edit_set: "edit del t t' \<Longrightarrow> set t' \<subseteq> insert 0x20 (set t)"
  by (induction rule: edit.induct) auto

lemma edit_Nil_left: "edit del [] t' \<Longrightarrow> t' = []"
  by (induction "[] :: ustring" t' rule: edit.induct) auto

lemma edit_head_gt:
  assumes "edit del t t'" "t \<noteq> []" "hd t = 0x3E"
  shows "t' \<noteq> [] \<and> hd t' = 0x3E"
  using assms by (induction rule: edit.induct) auto

lemma takeWhile_short: "length (takeWhile P xs) < length xs \<longleftrightarrow> (\<exists>x \<in> set xs. \<not> P x)"
proof -
  have "length (takeWhile P xs) = length xs \<longleftrightarrow> takeWhile P xs = xs"
  proof
    assume l: "length (takeWhile P xs) = length xs"
    have "takeWhile P xs = take (length (takeWhile P xs)) xs" by (rule takeWhile_eq_take)
    then show "takeWhile P xs = xs" by (simp add: l)
  next
    assume e: "takeWhile P xs = xs"
    show "length (takeWhile P xs) = length xs" by (simp only: e)
  qed
  then have "length (takeWhile P xs) = length xs \<longleftrightarrow> (\<forall>x \<in> set xs. P x)"
    by (simp add: takeWhile_eq_all_conv)
  moreover have "length (takeWhile P xs) \<le> length xs" by (rule length_takeWhile_le)
  ultimately show ?thesis by (metis le_neq_implies_less nat_less_le)
qed

lemma tag_len_None_iff: "tag_len cs = None \<longleftrightarrow> cs = [] \<or> hd cs = 0x3E \<or> 0x3E \<notin> set cs"
proof (cases cs)
  case Nil
  then show ?thesis by (simp add: tag_len_def)
next
  case (Cons c cs')
  have "length (takeWhile (\<lambda>c. c \<noteq> 0x3E) cs) < length cs \<longleftrightarrow> 0x3E \<in> set cs"
    by (simp add: takeWhile_short)
  then show ?thesis using Cons by (auto simp: tag_len_def Let_def)
qed

lemma edit_tag_len:
  assumes "edit del t t'" "tag_len t = None"
  shows "tag_len t' = None"
proof (cases "t = []")
  case True
  then show ?thesis using assms(1) edit_Nil_left by (auto simp: tag_len_None_iff)
next
  case ne: False
  show ?thesis
  proof (cases "hd t = 0x3E")
    case True
    then show ?thesis using edit_head_gt [OF assms(1) ne] by (simp add: tag_len_None_iff)
  next
    case False
    then have "0x3E \<notin> set t" using assms(2) ne by (simp add: tag_len_None_iff)
    then have "0x3E \<notin> set t'" using edit_set [OF assms(1)] by auto
    then show ?thesis by (simp add: tag_len_None_iff)
  qed
qed

lemma no_tag_append: "no_tag (d @ t) \<Longrightarrow> no_tag t"
  by (induction d) auto

lemma edit_no_tag: "edit del t t' \<Longrightarrow> no_tag t \<Longrightarrow> no_tag t'"
proof (induction rule: edit.induct)
  case edit_Nil
  then show ?case by simp
next
  case (edit_keep t t' c)
  then show ?case using edit_tag_len by auto
next
  case (edit_space t t' d)
  then show ?case using no_tag_append by auto
next
  case (edit_drop t t' d)
  then show ?case using no_tag_append by auto
qed


lemma find_close1_split:
  "find_close1 m cs = Some k \<Longrightarrow> cs = take k cs @ m # drop (k + 1) cs"
proof (induction cs arbitrary: k)
  case Nil
  then show ?case by simp
next
  case (Cons a as)
  show ?case
  proof (cases "a = m")
    case True
    then show ?thesis using Cons.prems by simp
  next
    case False
    with Cons.prems obtain k' where k': "find_close1 m as = Some k'" "k = Suc k'"
      by (auto split: if_splits)
    from Cons.IH [OF k'(1)] show ?thesis using k'(2) by simp
  qed
qed

lemma find_close2_split:
  "find_close2 m cs = Some k \<Longrightarrow> cs = take k cs @ m # m # drop (k + 2) cs"
proof (induction cs arbitrary: k)
  case Nil
  then show ?case by simp
next
  case (Cons a as)
  show ?case
  proof (cases "a = m \<and> (case as of [] \<Rightarrow> False | b # bs \<Rightarrow> b = m)")
    case True
    then show ?thesis using Cons.prems by (cases as) auto
  next
    case False
    with Cons.prems obtain k' where k': "find_close2 m as = Some k'" "k = Suc k'"
      by (auto split: if_splits)
    from Cons.IH [OF k'(1)] show ?thesis using k'(2) by simp
  qed
qed

lemma edit_sub_bold: "edit True t (sub_bold t)"
proof (induction t rule: sub_bold.induct)
  case 1
  then show ?case by (simp add: edit_Nil)
next
  case (2 a)
  then show ?case by (simp add: edit_refl)
next
  case (3 a b cs)
  show ?case
  proof (cases "a = b \<and> (a = 0x2A \<or> a = 0x5F)")
    case False
    then have "sub_bold (a # b # cs) = a # sub_bold (b # cs)" by auto
    moreover have "edit True (b # cs) (sub_bold (b # cs))" using 3 False by auto
    ultimately show ?thesis by (simp add: edit_keep)
  next
    case True
    show ?thesis
    proof (cases "find_close2 a cs")
      case None
      then have "sub_bold (a # b # cs) = a # sub_bold (b # cs)" using True by simp
      moreover have "edit True (b # cs) (sub_bold (b # cs))" using 3 True None by auto
      ultimately show ?thesis by (simp add: edit_keep)
    next
      case (Some k)
      let ?r = "drop (k + 2) cs"
      have ih: "edit True ?r (sub_bold ?r)" using 3 True Some by auto
      have "edit True ([a, a] @ ?r) (sub_bold ?r)"
        using True by (intro edit_drop ih) auto
      then have "edit True (take k cs @ [a, a] @ ?r) (take k cs @ sub_bold ?r)"
        by (rule edit_keep_list)
      then have "edit True cs (take k cs @ sub_bold ?r)"
        using find_close2_split [OF Some] by simp
      then have e: "edit True ([a, b] @ cs) (take k cs @ sub_bold ?r)"
        using True by (intro edit_drop) auto
      have "sub_bold (a # b # cs) = take k cs @ sub_bold ?r" using True Some by auto
      then show ?thesis using e by simp
    qed
  qed
qed

lemma edit_sub_italic: "edit True t (sub_italic t)"
proof (induction t rule: sub_italic.induct)
  case 1
  then show ?case by (simp add: edit_Nil)
next
  case (2 c cs)
  show ?case
  proof (cases "c = 0x5F")
    case False
    then show ?thesis using 2 by (simp add: edit_keep)
  next
    case True
    show ?thesis
    proof (cases "find_close1 0x5F cs")
      case None
      then show ?thesis using 2 True by (simp add: edit_keep)
    next
      case (Some k)
      let ?r = "drop (k + 1) cs"
      have ih: "edit True ?r (sub_italic ?r)" using 2 True Some by auto
      have "edit True ([0x5F] @ ?r) (sub_italic ?r)"
        by (intro edit_drop ih) auto
      then have "edit True (take k cs @ [0x5F] @ ?r) (take k cs @ sub_italic ?r)"
        by (rule edit_keep_list)
      then have "edit True cs (take k cs @ sub_italic ?r)"
        using find_close1_split [OF Some] by simp
      then have "edit True ([c] @ cs) (take k cs @ sub_italic ?r)"
        using True by (intro edit_drop) auto
      then show ?thesis using True Some by simp
    qed
  qed
qed

lemma edit_sub_star: "edit del t (sub_star prev t)"
proof (induction t arbitrary: prev)
  case Nil
  then show ?case by (simp add: edit_Nil)
next
  case (Cons c cs)
  show ?case
  proof (cases "c = 0x2A \<and> \<not> prev \<and> (case cs of [] \<Rightarrow> True | d # ds \<Rightarrow> d \<noteq> 0x2A)")
    case True
    have "edit del ([c] @ cs) (0x20 # sub_star True cs)"
      using True by (intro edit_space Cons) auto
    then show ?thesis using True by simp
  next
    case False
    then have "sub_star prev (c # cs) = c # sub_star (c = 0x2A) cs" by auto
    then show ?thesis using Cons by (simp add: edit_keep)
  qed
qed

lemma not_gt_space: "is_space c \<Longrightarrow> c \<noteq> 0x3E"
  by (auto simp: is_space_def)

lemma not_gt_dash: "is_dash c \<Longrightarrow> c \<noteq> 0x3E"
  by (auto simp: is_dash_def)

lemma heading_len_SomeD:
  assumes "heading_len (c # cs) = Some n"
  shows "0 < n \<and> n \<le> length (c # cs) \<and> (is_space c \<or> c = 0x23)"
proof -
  let ?t = "c # cs"
  let ?ws = "takeWhile is_space ?t"
  let ?r = "drop (length ?ws) ?t"
  let ?hs = "takeWhile (\<lambda>c. c = 0x23) ?r"
  let ?tl = "takeWhile is_space (drop (length ?hs) ?r)"
  from assms have hs: "?hs \<noteq> []" and n: "n = length ?ws + length ?hs + length ?tl"
    by (auto simp: heading_len_def Let_def split: if_splits)
  have "length ?hs + length ?tl \<le> length ?r"
    using length_takeWhile_le [of "\<lambda>c. c = 0x23" ?r]
      length_takeWhile_le [of is_space "drop (length ?hs) ?r"]
    by simp
  moreover have "length ?r = length ?t - length ?ws" by simp
  moreover have "length ?ws \<le> length ?t" by (rule length_takeWhile_le)
  ultimately have "n \<le> length ?t" using n by linarith
  moreover have "0 < n" using hs n by simp
  moreover have "is_space c \<or> c = 0x23"
  proof (cases "is_space c")
    case True
    then show ?thesis by simp
  next
    case False
    then have "?r = c # cs" by simp
    then show ?thesis using hs by (auto split: if_splits)
  qed
  ultimately show ?thesis by simp
qed

lemma edit_sub_heading: "edit del t (sub_heading bol t)"
proof (induction bol t rule: sub_heading.induct)
  case (1 bol)
  then show ?case by (simp add: edit_Nil)
next
  case (2 bol c cs)
  show ?case
  proof (cases "if bol then heading_len (c # cs) else None")
    case None
    then show ?thesis using 2 by (simp add: edit_keep)
  next
    case (Some n)
    then have h: "heading_len (c # cs) = Some n" by (auto split: if_splits)
    from heading_len_SomeD [OF h] have n: "0 < n" "n \<le> length (c # cs)"
      and c: "is_space c \<or> c = 0x23" by auto
    let ?r = "drop (n - 1) cs"
    let ?b = "(c # cs) ! (n - 1) = 0x0A"
    have ih: "edit del ?r (sub_heading ?b ?r)" using 2 Some by auto
    have "edit del ((c # take (n - 1) cs) @ ?r) (0x20 # sub_heading ?b ?r)"
      using c not_gt_space by (intro edit_space ih) auto
    then have "edit del (c # cs) (0x20 # sub_heading ?b ?r)" by simp
    then show ?thesis using Some by simp
  qed
qed

lemma edit_sub_footnote: "edit del t (sub_footnote t)"
proof (induction t rule: sub_footnote.induct)
  case 1
  then show ?case by (simp add: edit_Nil)
next
  case (2 c cs)
  show ?case
  proof (cases "c = 0x5B")
    case False
    then show ?thesis using 2 by (simp add: edit_keep)
  next
    case True
    show ?thesis
    proof (cases "find_close1 0x5D cs")
      case None
      then show ?thesis using 2 True by (simp add: edit_keep)
    next
      case (Some k)
      let ?r = "drop (k + 1) cs"
      have ih: "edit del ?r (sub_footnote ?r)" using 2 True Some by auto
      have "edit del ((c # take (k + 1) cs) @ ?r) (0x20 # sub_footnote ?r)"
        using True by (intro edit_space ih) auto
      then have "edit del (c # cs) (0x20 # sub_footnote ?r)" by simp
      then show ?thesis using True Some by simp
    qed
  qed
qed

lemma edit_sub_dashes: "edit del t (sub_dashes t)"
proof (induction t rule: sub_dashes.induct)
  case 1
  then show ?case by (simp add: edit_Nil)
next
  case (2 c cs)
  show ?case
  proof (cases "is_dash c \<and> (case cs of [] \<Rightarrow> False | d # ds \<Rightarrow> is_dash d)")
    case False
    then have "sub_dashes (c # cs) = c # sub_dashes cs" by auto
    moreover have "edit del cs (sub_dashes cs)" using 2 False by auto
    ultimately show ?thesis by (simp add: edit_keep)
  next
    case True
    let ?r = "dropWhile is_dash cs"
    have ih: "edit del ?r (sub_dashes ?r)" using 2 True by auto
    have "edit del ((c # takeWhile is_dash cs) @ ?r) (0x20 # sub_dashes ?r)"
      using True not_gt_dash by (intro edit_space ih) auto
    then have "edit del (c # cs) (0x20 # sub_dashes ?r)" by simp
    then show ?thesis using True by simp
  qed
qed

lemma edit_sub_dots: "edit del t (sub_dots t)"
proof (induction t rule: sub_dots.induct)
  case 1
  then show ?case by (simp add: edit_Nil)
next
  case (2 c cs)
  show ?case
  proof (cases "c = 0x2E \<and> 2 \<le> length (takeWhile (\<lambda>d. d = 0x2E) cs)")
    case False
    then have "sub_dots (c # cs) = c # sub_dots cs" by auto
    moreover have "edit del cs (sub_dots cs)" using 2 False by auto
    ultimately show ?thesis by (simp add: edit_keep)
  next
    case True
    let ?r = "dropWhile (\<lambda>d. d = 0x2E) cs"
    have ih: "edit del ?r (sub_dots ?r)" using 2 True by auto
    have "edit del ((c # takeWhile (\<lambda>d. d = 0x2E) cs) @ ?r) (0x20 # sub_dots ?r)"
      using True by (intro edit_space ih) auto
    then have "edit del (c # cs) (0x20 # sub_dots ?r)" by simp
    then show ?thesis using True by simp
  qed
qed

lemma edit_replace_marks: "edit del t (replace_marks t)"
proof (induction t)
  case Nil
  then show ?case by (simp add: replace_marks_def edit_Nil)
next
  case (Cons c cs)
  show ?case
  proof (cases "c = 0x2A \<or> c = 0x5F")
    case True
    have "edit del ([c] @ cs) (0x20 # replace_marks cs)"
      using True by (intro edit_space Cons) auto
    then show ?thesis using True by (simp add: replace_marks_def)
  next
    case False
    then show ?thesis using Cons by (simp add: replace_marks_def edit_keep)
  qed
qed

lemma edit_collapse_ws: "edit del t (collapse_ws t)"
proof (induction t rule: collapse_ws.induct)
  case 1
  then show ?case by (simp add: edit_Nil)
next
  case (2 c cs)
  show ?case
  proof (cases "is_space c")
    case False
    then show ?thesis using 2 by (simp add: edit_keep)
  next
    case True
    let ?r = "dropWhile is_space cs"
    have ih: "edit del ?r (collapse_ws ?r)" using 2 True by auto
    have "edit del ((c # takeWhile is_space cs) @ ?r) (0x20 # collapse_ws ?r)"
      using True not_gt_space by (intro edit_space ih) auto
    then have "edit del (c # cs) (0x20 # collapse_ws ?r)" by simp
    then show ?thesis using True by simp
  qed
qed


lemma strip_decomp:
  "\<exists>a b. t = a @ strip t @ b \<and> (\<forall>c \<in> set a. is_space c) \<and> (\<forall>c \<in> set b. is_space c)"
proof -
  let ?u = "dropWhile is_space t"
  let ?a = "takeWhile is_space t"
  let ?b = "rev (takeWhile is_space (rev ?u))"
  have e: "takeWhile is_space (rev ?u) @ dropWhile is_space (rev ?u) = rev ?u"
    by (rule takeWhile_dropWhile_id)
  have "rev (takeWhile is_space (rev ?u) @ dropWhile is_space (rev ?u)) = ?u"
    by (simp only: e rev_rev_ident)
  then have u: "strip t @ ?b = ?u" by (simp only: rev_append strip_def)
  have "?a @ ?u = t" by (rule takeWhile_dropWhile_id)
  then have "t = ?a @ strip t @ ?b" by (simp only: u)
  moreover have "\<forall>c \<in> set ?a. is_space c" by (auto dest: set_takeWhileD)
  moreover have "\<forall>c \<in> set ?b. is_space c" by (auto dest: set_takeWhileD)
  ultimately show ?thesis by blast
qed

lemma edit_drop_spaces:
  assumes "\<forall>c \<in> set a. is_space c" "edit True t t'"
  shows "edit True (a @ t) t'"
proof (cases "a = []")
  case True
  then show ?thesis using assms by simp
next
  case False
  then have "hd a \<in> set a" by simp
  then have "hd a \<noteq> 0x3E" using assms(1) not_gt_space by blast
  then show ?thesis using False assms(2) by (intro edit_drop) auto
qed

lemma edit_strip: "edit True t (strip t)"
proof -
  obtain a b where d: "t = a @ strip t @ b" "\<forall>c \<in> set a. is_space c" "\<forall>c \<in> set b. is_space c"
    using strip_decomp by blast
  have e1: "edit True b []" using edit_drop_spaces [OF d(3) edit_Nil] by simp
  have "edit True (strip t @ b) (strip t @ [])" using edit_keep_list [OF e1] .
  then have e3: "edit True (strip t @ b) (strip t)" by simp
  have "edit True (a @ strip t @ b) (strip t)" using edit_drop_spaces [OF d(2) e3] .
  then show ?thesis using d(1) by simp
qed

lemma sub_tags_set: "set (sub_tags t) \<subseteq> insert 0x20 (set t)"
proof (induction t rule: sub_tags.induct)
  case 1
  then show ?case by simp
next
  case (2 c cs)
  show ?case
  proof (cases "c = 0x3C")
    case False
    then show ?thesis using 2 by auto
  next
    case True
    show ?thesis
    proof (cases "tag_len cs")
      case None
      then show ?thesis using 2 True by auto
    next
      case (Some n)
      then have "set (sub_tags (drop n cs)) \<subseteq> insert 0x20 (set (drop n cs))" using 2 True by auto
      then have "set (sub_tags (drop n cs)) \<subseteq> insert 0x20 (set cs)"
        using set_drop_subset [of n cs] by auto
      then show ?thesis using True Some by auto
    qed
  qed
qed

lemma sub_tags_gt_head: "sub_tags (0x3E # cs) = 0x3E # sub_tags cs"
  by simp

lemma no_tag_sub_tags: "no_tag (sub_tags t)"
proof (induction t rule: sub_tags.induct)
  case 1
  then show ?case by simp
next
  case (2 c cs)
  show ?case
  proof (cases "c = 0x3C")
    case False
    then show ?thesis using 2 by auto
  next
    case True
    show ?thesis
    proof (cases "tag_len cs")
      case (Some n)
      then show ?thesis using 2 True by auto
    next
      case None
      have "tag_len (sub_tags cs) = None"
      proof (cases "cs = []")
        case True
        then show ?thesis by (simp add: tag_len_def)
      next
        case ne: False
        show ?thesis
        proof (cases "hd cs = 0x3E")
          case True
          then obtain cs' where "cs = 0x3E # cs'" using ne by (cases cs) auto
          then show ?thesis by (simp add: tag_len_None_iff)
        next
          case False
          then have "0x3E \<notin> set cs" using None ne by (simp add: tag_len_None_iff)
          then have "0x3E \<notin> set (sub_tags cs)" using sub_tags_set [of cs] by auto
          then show ?thesis by (simp add: tag_len_None_iff)
        qed
      qed
      then show ?thesis using 2 True None by auto
    qed
  qed
qed

lemma sub_tags_id: "no_tag t \<Longrightarrow> sub_tags t = t"
  by (induction t) auto

text \<open>Runs of dashes.\<close>

lemma edit_head_kept:
  assumes "edit False t t'" "t' \<noteq> []" "hd t' \<noteq> 0x20"
  shows "t \<noteq> [] \<and> hd t = hd t'"
  using assms by (induction rule: edit.induct) auto

lemma not_dash_space: "\<not> is_dash 0x20"
  by (simp add: is_dash_def)

lemma edit_no_dash_run: "edit False t t' \<Longrightarrow> no_dash_run t \<Longrightarrow> no_dash_run t'"
proof (induction rule: edit.induct)
  case edit_Nil
  then show ?case by simp
next
  case (edit_keep t t' c)
  have "\<not> (is_dash c \<and> (case t' of [] \<Rightarrow> False | d # ds \<Rightarrow> is_dash d))"
  proof
    assume a: "is_dash c \<and> (case t' of [] \<Rightarrow> False | d # ds \<Rightarrow> is_dash d)"
    then obtain d ds where t': "t' = d # ds" "is_dash d" by (cases t') auto
    then have "hd t' \<noteq> 0x20" using not_dash_space by auto
    with edit_head_kept [OF edit_keep.hyps] t' have "t \<noteq> [] \<and> hd t = d" by simp
    then obtain ts where "t = d # ts" by (cases t) auto
    with a t' edit_keep.prems show False by simp
  qed
  then show ?case using edit_keep by simp
next
  case (edit_space t t' d)
  have "no_dash_run t" using edit_space.prems by (induction d) auto
  then show ?case using edit_space not_dash_space by (cases t') auto
next
  case (edit_drop t t' d)
  then show ?case by simp
qed

lemma no_dash_run_sub_dashes: "no_dash_run (sub_dashes t)"
proof (induction t rule: sub_dashes.induct)
  case 1
  then show ?case by simp
next
  case (2 c cs)
  show ?case
  proof (cases "is_dash c \<and> (case cs of [] \<Rightarrow> False | d # ds \<Rightarrow> is_dash d)")
    case True
    then show ?thesis using 2 not_dash_space by (cases "sub_dashes (dropWhile is_dash cs)") auto
  next
    case False
    then have s: "sub_dashes (c # cs) = c # sub_dashes cs" by auto
    have ih: "no_dash_run (sub_dashes cs)" using 2 False by auto
    have "\<not> (is_dash c \<and> (case sub_dashes cs of [] \<Rightarrow> False | d # ds \<Rightarrow> is_dash d))"
    proof
      assume a: "is_dash c \<and> (case sub_dashes cs of [] \<Rightarrow> False | d # ds \<Rightarrow> is_dash d)"
      then obtain d ds where sd: "sub_dashes cs = d # ds" "is_dash d" by (cases "sub_dashes cs") auto
      then have "hd (sub_dashes cs) \<noteq> 0x20" using not_dash_space by auto
      with edit_head_kept [OF edit_sub_dashes, of cs] sd have "cs \<noteq> [] \<and> hd cs = d" by simp
      then obtain ts where "cs = d # ts" by (cases cs) auto
      with a sd False show False by simp
    qed
    then show ?thesis using s ih by simp
  qed
qed

lemma sub_dashes_id: "no_dash_run t \<Longrightarrow> sub_dashes t = t"
  by (induction t) auto

lemma no_dash_run_suffix: "no_dash_run (xs @ ys) \<Longrightarrow> no_dash_run ys"
  by (induction xs) auto

lemma no_dash_run_prefix: "no_dash_run (xs @ ys) \<Longrightarrow> no_dash_run xs"
proof (induction xs)
  case Nil
  then show ?case by simp
next
  case (Cons c xs)
  then show ?case by (cases xs) auto
qed

lemma no_dash_run_strip: "no_dash_run t \<Longrightarrow> no_dash_run (strip t)"
proof -
  assume n: "no_dash_run t"
  obtain a b where "t = a @ strip t @ b" using strip_decomp by blast
  then have "no_dash_run (a @ strip t @ b)" using n by simp
  then have "no_dash_run (strip t @ b)" by (rule no_dash_run_suffix)
  then show ?thesis by (rule no_dash_run_prefix)
qed


text \<open>Runs of full stops.\<close>

lemma edit_dot_prefix:
  "edit False t t' \<Longrightarrow>
   length (takeWhile (\<lambda>d. d = 0x2E) t') \<le> length (takeWhile (\<lambda>d. d = 0x2E) t)"
  by (induction rule: edit.induct) auto

lemma no_dot_run_suffix: "no_dot_run (xs @ ys) \<Longrightarrow> no_dot_run ys"
  by (induction xs) auto

lemma takeWhile_append_le: "length (takeWhile P xs) \<le> length (takeWhile P (xs @ ys))"
  by (induction xs) auto

lemma no_dot_run_prefix: "no_dot_run (xs @ ys) \<Longrightarrow> no_dot_run xs"
proof (induction xs)
  case Nil
  then show ?case by simp
next
  case (Cons c xs)
  have "length (takeWhile (\<lambda>d. d = 0x2E) xs) \<le> length (takeWhile (\<lambda>d. d = 0x2E) (xs @ ys))"
    by (rule takeWhile_append_le)
  then show ?case using Cons by auto
qed

lemma edit_no_dot_run: "edit False t t' \<Longrightarrow> no_dot_run t \<Longrightarrow> no_dot_run t'"
proof (induction rule: edit.induct)
  case edit_Nil
  then show ?case by simp
next
  case (edit_keep t t' c)
  then show ?case using edit_dot_prefix [OF edit_keep.hyps] by auto
next
  case (edit_space t t' d)
  then show ?case using no_dot_run_suffix by auto
next
  case (edit_drop t t' d)
  then show ?case by simp
qed

lemma no_dot_run_sub_dots: "no_dot_run (sub_dots t)"
proof (induction t rule: sub_dots.induct)
  case 1
  then show ?case by simp
next
  case (2 c cs)
  show ?case
  proof (cases "c = 0x2E \<and> 2 \<le> length (takeWhile (\<lambda>d. d = 0x2E) cs)")
    case True
    then show ?thesis using 2 by auto
  next
    case False
    then have s: "sub_dots (c # cs) = c # sub_dots cs" by auto
    have ih: "no_dot_run (sub_dots cs)" using 2 False by auto
    have "length (takeWhile (\<lambda>d. d = 0x2E) (sub_dots cs)) \<le> length (takeWhile (\<lambda>d. d = 0x2E) cs)"
      by (rule edit_dot_prefix [OF edit_sub_dots])
    then show ?thesis using s ih False by auto
  qed
qed

lemma sub_dots_id: "no_dot_run t \<Longrightarrow> sub_dots t = t"
  by (induction t) auto

lemma no_dot_run_strip: "no_dot_run t \<Longrightarrow> no_dot_run (strip t)"
proof -
  assume n: "no_dot_run t"
  obtain a b where "t = a @ strip t @ b" using strip_decomp by blast
  then have "no_dot_run (a @ strip t @ b)" using n by simp
  then have "no_dot_run (strip t @ b)" by (rule no_dot_run_suffix)
  then show ?thesis by (rule no_dot_run_prefix)
qed

text \<open>Emphasis marks.\<close>

lemma replace_marks_set: "0x2A \<notin> set (replace_marks t) \<and> 0x5F \<notin> set (replace_marks t)"
  by (auto simp: replace_marks_def)

lemma sub_bold_id: "0x2A \<notin> set t \<Longrightarrow> 0x5F \<notin> set t \<Longrightarrow> sub_bold t = t"
  by (induction t rule: sub_bold.induct) auto

lemma sub_star_id: "0x2A \<notin> set t \<Longrightarrow> sub_star prev t = t"
  by (induction t arbitrary: prev) auto

lemma sub_italic_id: "0x5F \<notin> set t \<Longrightarrow> sub_italic t = t"
  by (induction t) auto

lemma replace_marks_id: "0x2A \<notin> set t \<Longrightarrow> 0x5F \<notin> set t \<Longrightarrow> replace_marks t = t"
  by (induction t) (auto simp: replace_marks_def)

text \<open>White space.\<close>


lemma collapse_ws_head:
  "t = [] \<or> \<not> is_space (hd t) \<Longrightarrow> collapse_ws t = [] \<or> \<not> is_space (hd (collapse_ws t))"
  by (cases t) auto

lemma collapsed_collapse_ws: "collapsed (collapse_ws t)"
proof (induction t rule: collapse_ws.induct)
  case 1
  then show ?case by simp
next
  case (2 c cs)
  show ?case
  proof (cases "is_space c")
    case False
    then show ?thesis using 2 by simp
  next
    case True
    let ?r = "dropWhile is_space cs"
    have "?r = [] \<or> \<not> is_space (hd ?r)" using hd_dropWhile [of is_space cs] by auto
    then have "collapse_ws ?r = [] \<or> \<not> is_space (hd (collapse_ws ?r))" by (rule collapse_ws_head)
    then have "case collapse_ws ?r of [] \<Rightarrow> True | d # ds \<Rightarrow> \<not> is_space d"
      by (cases "collapse_ws ?r") auto
    then show ?thesis using 2 True by simp
  qed
qed

lemma collapse_ws_id: "collapsed t \<Longrightarrow> collapse_ws t = t"
proof (induction t rule: collapse_ws.induct)
  case 1
  then show ?case by simp
next
  case (2 c cs)
  show ?case
  proof (cases "is_space c")
    case False
    then show ?thesis using 2 by simp
  next
    case True
    then have "dropWhile is_space cs = cs" using 2(3) by (cases cs) auto
    then show ?thesis using 2 True by auto
  qed
qed

lemma collapsed_suffix: "collapsed (xs @ ys) \<Longrightarrow> collapsed ys"
  by (induction xs) auto

lemma collapsed_prefix: "collapsed (xs @ ys) \<Longrightarrow> collapsed xs"
proof (induction xs)
  case Nil
  then show ?case by simp
next
  case (Cons c xs)
  then show ?case by (cases xs) auto
qed

lemma collapsed_strip: "collapsed t \<Longrightarrow> collapsed (strip t)"
proof -
  assume n: "collapsed t"
  obtain a b where "t = a @ strip t @ b" using strip_decomp by blast
  then have "collapsed (a @ strip t @ b)" using n by simp
  then have "collapsed (strip t @ b)" by (rule collapsed_suffix)
  then show ?thesis by (rule collapsed_prefix)
qed

lemma collapsed_spaces: "collapsed t \<Longrightarrow> c \<in> set t \<Longrightarrow> is_space c \<Longrightarrow> c = 0x20"
  by (induction t) auto

lemma last_dropWhile: "dropWhile P xs \<noteq> [] \<Longrightarrow> last (dropWhile P xs) = last xs"
  by (induction xs) (auto split: if_splits)

lemma dropWhile_id: "xs = [] \<or> \<not> P (hd xs) \<Longrightarrow> dropWhile P xs = xs"
  by (cases xs) auto

lemma strip_hd: "strip t \<noteq> [] \<Longrightarrow> \<not> is_space (hd (strip t))"
proof -
  assume ne: "strip t \<noteq> []"
  let ?v = "dropWhile is_space t"
  let ?w = "dropWhile is_space (rev ?v)"
  have w: "?w \<noteq> []" using ne by (simp add: strip_def)
  have v: "?v \<noteq> []"
  proof
    assume e: "?v = []"
    have "?w = []" by (simp only: e rev.simps dropWhile.simps)
    with w show False by contradiction
  qed
  have "hd (strip t) = last ?w" using w by (simp add: strip_def hd_rev)
  also have "\<dots> = last (rev ?v)" using w by (rule last_dropWhile)
  also have "\<dots> = hd ?v" using v by (simp add: last_rev)
  finally show ?thesis using hd_dropWhile [OF v] by simp
qed

lemma strip_last: "strip t \<noteq> [] \<Longrightarrow> \<not> is_space (last (strip t))"
proof -
  assume ne: "strip t \<noteq> []"
  let ?v = "dropWhile is_space t"
  let ?w = "dropWhile is_space (rev ?v)"
  have w: "?w \<noteq> []" using ne by (simp add: strip_def)
  have "last (strip t) = hd ?w" using w by (simp add: strip_def last_rev)
  then show ?thesis using hd_dropWhile [OF w] by simp
qed

lemma strip_id:
  assumes "t = [] \<or> (\<not> is_space (hd t) \<and> \<not> is_space (last t))"
  shows "strip t = t"
proof (cases "t = []")
  case True
  then show ?thesis by (simp add: strip_def)
next
  case False
  then have h: "\<not> is_space (hd t)" "\<not> is_space (last t)" using assms by auto
  have a: "dropWhile is_space t = t" using h(1) by (intro dropWhile_id) simp
  have "hd (rev t) = last t" using False by (simp add: hd_rev)
  then have b: "dropWhile is_space (rev t) = rev t" using h(2) by (intro dropWhile_id) simp
  show ?thesis by (simp add: strip_def a b)
qed

lemma strip_strip: "strip (strip t) = strip t"
  using strip_hd [of t] strip_last [of t] by (intro strip_id) auto

text \<open>Line breaks, headings and footnote marks.\<close>

lemma replace_crlf_id: "0x0D \<notin> set t \<Longrightarrow> replace_crlf t = t"
  by (induction t rule: replace_crlf.induct) auto

lemma sub_heading_False_id: "0x0A \<notin> set t \<Longrightarrow> sub_heading False t = t"
  by (induction t) auto

lemma sub_heading_id:
  assumes "0x0A \<notin> set t" "t = [] \<or> (\<not> is_space (hd t) \<and> hd t \<noteq> 0x23)"
  shows "sub_heading True t = t"
proof (cases t)
  case Nil
  then show ?thesis by simp
next
  case (Cons c cs)
  then have c: "\<not> is_space c" "c \<noteq> 0x23" using assms(2) by auto
  then have "heading_len (c # cs) = None" by (simp add: heading_len_def)
  moreover have "sub_heading False cs = cs" using assms(1) Cons by (intro sub_heading_False_id) simp
  moreover have "c \<noteq> 0x0A" using assms(1) Cons by auto
  ultimately show ?thesis using Cons by simp
qed

lemma find_close1_None: "m \<notin> set cs \<Longrightarrow> find_close1 m cs = None"
  by (induction cs) auto

lemma sub_footnote_id: "\<not> has_bracket_pair t \<Longrightarrow> sub_footnote t = t"
  by (induction t) (auto simp: find_close1_None)


lemma replace_nbsp_id: "0xA0 \<notin> set t \<Longrightarrow> replace_nbsp t = t"
  by (induction t) (auto simp: replace_nbsp_def)

lemma replace_cr_id: "0x0D \<notin> set t \<Longrightarrow> replace_cr t = t"
  by (induction t) (auto simp: replace_cr_def)

lemma collapsed_no_other_space:
  assumes "collapsed t"
  shows "0xA0 \<notin> set t \<and> 0x0D \<notin> set t \<and> 0x0A \<notin> set t"
proof -
  have "is_space 0xA0" "is_space 0x0D" "is_space 0x0A" by (simp_all add: is_space_def)
  then show ?thesis using collapsed_spaces [OF assms] by fastforce
qed

lemma clean_fixed:
  assumes nt: "no_tag t" and nd: "no_dash_run t" and dots: "no_dot_run t"
    and marks: "0x2A \<notin> set t" "0x5F \<notin> set t"
    and col: "collapsed t"
    and ends: "t = [] \<or> (\<not> is_space (hd t) \<and> \<not> is_space (last t))"
    and hash: "take 1 t \<noteq> U ''#''"
    and br: "\<not> has_bracket_pair t"
  shows "clean_text_for_comparison (PyStr t) = t"
proof (cases "t = []")
  case True
  then show ?thesis by (simp add: clean_text_for_comparison_def)
next
  case False
  from collapsed_no_other_space [OF col]
  have sp: "0xA0 \<notin> set t" "0x0D \<notin> set t" "0x0A \<notin> set t" by auto
  have h: "t = [] \<or> (\<not> is_space (hd t) \<and> hd t \<noteq> 0x23)"
    using ends hash False by (cases t) (auto simp: U_def)
  have 1: "replace_nbsp t = t" using sp(1) by (rule replace_nbsp_id)
  have 2: "replace_crlf t = t" using sp(2) by (rule replace_crlf_id)
  have 3: "replace_cr t = t" using sp(2) by (rule replace_cr_id)
  have 4: "sub_tags t = t" using nt by (rule sub_tags_id)
  have 5: "sub_bold t = t" using marks by (rule sub_bold_id)
  have 6: "sub_star False t = t" using marks(1) by (rule sub_star_id)
  have 7: "sub_italic t = t" using marks(2) by (rule sub_italic_id)
  have 8: "sub_heading True t = t" using sp(3) h by (rule sub_heading_id)
  have 9: "sub_footnote t = t" using br by (rule sub_footnote_id)
  have 10: "sub_dashes t = t" using nd by (rule sub_dashes_id)
  have 11: "sub_dots t = t" using dots by (rule sub_dots_id)
  have 12: "replace_marks t = t" using marks by (rule replace_marks_id)
  have 13: "collapse_ws t = t" using col by (rule collapse_ws_id)
  have 14: "strip t = t" using ends by (rule strip_id)
  show ?thesis
    using False
    by (simp add: clean_text_for_comparison_def Let_def 1 2 3 4 5 6 7 8 9 10 11 12 13 14)
qed

lemma edit_marks:
  assumes "edit del t t'" "0x2A \<notin> set t" "0x5F \<notin> set t"
  shows "0x2A \<notin> set t' \<and> 0x5F \<notin> set t'"
  using edit_set [OF assms(1)] assms(2,3) by auto

lemma clean_props:
  fixes v :: pyval
  defines "t \<equiv> clean_text_for_comparison v"
  shows "no_tag t \<and> no_dash_run t \<and> no_dot_run t \<and> 0x2A \<notin> set t \<and> 0x5F \<notin> set t \<and>
     collapsed t \<and> (t = [] \<or> (\<not> is_space (hd t) \<and> \<not> is_space (last t)))"
proof (cases "\<not> truthy v \<or> \<not> isinstance_str v")
  case True
  then show ?thesis by (simp add: t_def clean_text_for_comparison_def)
next
  case False
  define t3 where "t3 = sub_tags (replace_cr (replace_crlf (replace_nbsp (str_of v))))"
  define t4 where "t4 = sub_bold t3"
  define t5 where "t5 = sub_star False t4"
  define t6 where "t6 = sub_italic t5"
  define t7 where "t7 = sub_heading True t6"
  define t8 where "t8 = sub_footnote t7"
  define t9 where "t9 = sub_dashes t8"
  define t10 where "t10 = sub_dots t9"
  define t11 where "t11 = replace_marks t10"
  define t12 where "t12 = collapse_ws t11"
  have t: "t = strip t12"
    using False
    by (simp add: t_def clean_text_for_comparison_def Let_def t3_def t4_def t5_def t6_def
        t7_def t8_def t9_def t10_def t11_def t12_def)
  have "no_tag t3" unfolding t3_def by (rule no_tag_sub_tags)
  then have "no_tag t4" unfolding t4_def by (rule edit_no_tag [OF edit_sub_bold])
  then have "no_tag t5" unfolding t5_def by (rule edit_no_tag [OF edit_sub_star])
  then have "no_tag t6" unfolding t6_def by (rule edit_no_tag [OF edit_sub_italic])
  then have "no_tag t7" unfolding t7_def by (rule edit_no_tag [OF edit_sub_heading])
  then have "no_tag t8" unfolding t8_def by (rule edit_no_tag [OF edit_sub_footnote])
  then have "no_tag t9" unfolding t9_def by (rule edit_no_tag [OF edit_sub_dashes])
  then have "no_tag t10" unfolding t10_def by (rule edit_no_tag [OF edit_sub_dots])
  then have "no_tag t11" unfolding t11_def by (rule edit_no_tag [OF edit_replace_marks])
  then have "no_tag t12" unfolding t12_def by (rule edit_no_tag [OF edit_collapse_ws])
  then have nt: "no_tag t" unfolding t by (rule edit_no_tag [OF edit_strip])
  have "no_dash_run t9" unfolding t9_def by (rule no_dash_run_sub_dashes)
  then have "no_dash_run t10" unfolding t10_def by (rule edit_no_dash_run [OF edit_sub_dots])
  then have "no_dash_run t11" unfolding t11_def by (rule edit_no_dash_run [OF edit_replace_marks])
  then have "no_dash_run t12" unfolding t12_def by (rule edit_no_dash_run [OF edit_collapse_ws])
  then have nd: "no_dash_run t" unfolding t by (rule no_dash_run_strip)
  have "no_dot_run t10" unfolding t10_def by (rule no_dot_run_sub_dots)
  then have "no_dot_run t11" unfolding t11_def by (rule edit_no_dot_run [OF edit_replace_marks])
  then have "no_dot_run t12" unfolding t12_def by (rule edit_no_dot_run [OF edit_collapse_ws])
  then have dots: "no_dot_run t" unfolding t by (rule no_dot_run_strip)
  have "0x2A \<notin> set t11 \<and> 0x5F \<notin> set t11" unfolding t11_def by (rule replace_marks_set)
  then have "0x2A \<notin> set t12 \<and> 0x5F \<notin> set t12"
    unfolding t12_def using edit_marks [OF edit_collapse_ws] by blast
  then have marks: "0x2A \<notin> set t \<and> 0x5F \<notin> set t"
    unfolding t using edit_marks [OF edit_strip] by blast
  have "collapsed t12" unfolding t12_def by (rule collapsed_collapse_ws)
  then have col: "collapsed t" unfolding t by (rule collapsed_strip)
  have ends: "t = [] \<or> (\<not> is_space (hd t) \<and> \<not> is_space (last t))"
    unfolding t using strip_hd [of t12] strip_last [of t12] by blast
  show ?thesis using nt nd dots marks col ends by simp
qed

text \<open>
  Claim C8, as amended.  Cleaning a text a second time changes nothing whenever the text
  cleaned once does not start with \<open>#\<close> and has no \<open>[\<close> with a \<open>]\<close> somewhere after it.
  The first pass can bring a \<open>#\<close> to the start of the text, or put a \<open>[\<close> and a \<open>]\<close> on one
  line; the heading and footnote substitutions then apply in the second pass only.
\<close>

theorem clean_twice:
  "(let once = clean_text_for_comparison v
    in take 1 once \<noteq> U ''#'' \<and> \<not> has_bracket_pair once \<longrightarrow>
       clean_text_for_comparison (PyStr once) = once)"
  using clean_props [of v] clean_fixed [of "clean_text_for_comparison v"]
  by (simp add: Let_def)


text \<open>
  The markup of this text is removed in the first pass, and the second pass returns the
  result unchanged.
\<close>

theorem clean_twice_witness:
  "clean_text_for_comparison (PyStr (U ''<b>Hi</b> **bo** _it_ [1] -- x....y *z* a_b'')) =
     U ''Hi bo it x y z a b'' \<and>
   take 1 (U ''Hi bo it x y z a b'') \<noteq> U ''#'' \<and>
   \<not> has_bracket_pair (U ''Hi bo it x y z a b'') \<and>
   clean_text_for_comparison (PyStr (U ''Hi bo it x y z a b'')) = U ''Hi bo it x y z a b''"
proof -
  have c: "clean_text_for_comparison (PyStr (U ''<b>Hi</b> **bo** _it_ [1] -- x....y *z* a_b'')) =
     U ''Hi bo it x y z a b''"
    by (simp add: clean_eval)
  have h: "take 1 (U ''Hi bo it x y z a b'') \<noteq> U ''#''" by (simp add: U_def)
  have b: "\<not> has_bracket_pair (U ''Hi bo it x y z a b'')" by (simp add: U_def)
  from clean_twice [of "PyStr (U ''<b>Hi</b> **bo** _it_ [1] -- x....y *z* a_b'')"] c h b
  show ?thesis by (simp only: Let_def simp_thms)
qed

text \<open>
  Without the two conditions the second pass changes the text: after the footnote mark
  \<open>[1]\<close> is removed the line starts with a heading mark, and after the line feed between
  the brackets becomes a space the brackets form a footnote mark.
\<close>

theorem clean_twice_changes:
  "clean_text_for_comparison (PyStr (U ''[1]# Title'')) = U ''# Title'' \<and>
   clean_text_for_comparison (PyStr (U ''# Title'')) = U ''Title'' \<and>
   clean_text_for_comparison (PyStr (U ''[a'' @ [0x0A] @ U ''b]'')) = U ''[a b]'' \<and>
   clean_text_for_comparison (PyStr (U ''[a b]'')) = []"
  by (simp add: clean_eval)

end
